theory Spec2Isabelle
  imports Complex_Main "HOL-Library.Word" "HOL-Library.Signed_Division"
begin

section \<open>The OLED pager of display\_oled.c\<close>

text \<open>
  A shallow embedding of \<^verbatim>\<open>src/display_oled.c\<close>: the tone generator
  (\<^verbatim>\<open>play_tone\<close>), the text layout routine (\<^verbatim>\<open>oled_println_buf\<close>), the page
  renderer (\<^verbatim>\<open>render_page\<close>) and one iteration of the polling loop of \<^verbatim>\<open>main\<close>.

  Calls into the Pico SDK and the SSD1306 driver are not computed: each call is recorded,
  in program order, as an \<open>effect\<close>. A function of the program returns the list of the
  calls it made. Behaviour that C leaves undefined (a write outside an array, a conversion
  of a floating-point value that the target type cannot hold, an \<^verbatim>\<open>int\<close> addition that
  overflows) is a value of type \<open>error\<close>.
\<close>

subsection \<open>Errors and effects\<close>

datatype error =
    OutOfBounds            \<comment> \<open>access outside an array\<close>
  | UndefinedConversion    \<comment> \<open>float to integer conversion outside the integer's range\<close>
  | SignedOverflow         \<comment> \<open>\<^verbatim>\<open>int\<close> arithmetic outside the range of \<^verbatim>\<open>int\<close>\<close>

datatype float32 =
    NaN
  | PlusInf
  | MinusInf
  | Finite real

datatype effect =
    SleepMs "32 word"                \<comment> \<open>\<^verbatim>\<open>sleep_ms(ms)\<close>\<close>
  | PwmSetClkdiv nat float32         \<comment> \<open>\<^verbatim>\<open>pwm_set_clkdiv(slice, divider)\<close>\<close>
  | PwmSetWrap nat "32 word"         \<comment> \<open>\<^verbatim>\<open>pwm_set_wrap(slice, top)\<close>\<close>
  | PwmSetGpioLevel nat "32 word"    \<comment> \<open>\<^verbatim>\<open>pwm_set_gpio_level(pin, level)\<close>\<close>
  | ClearBuffer                      \<comment> \<open>\<^verbatim>\<open>memset(ssd, 0, ssd1306_buffer_length)\<close>\<close>
  | DrawString int int string        \<comment> \<open>\<^verbatim>\<open>ssd1306_draw_string(ssd, x, y, s)\<close>\<close>
  | RenderOnDisplay                  \<comment> \<open>\<^verbatim>\<open>render_on_display(ssd, area)\<close>\<close>

subsection \<open>Single-precision arithmetic\<close>

text \<open>
  \<^verbatim>\<open>play_tone\<close> computes in C \<^verbatim>\<open>float\<close>. A \<open>float32\<close> is a NaN, an infinity or
  a finite value; a finite value is the real number it denotes. Every operation rounds its
  exact result to the nearest value with a 24-bit significand, ties to even, with the
  exponent range of IEEE 754 binary32 (gradual underflow below \<open>2\<^sup>-\<^sup>1\<^sup>2\<^sup>6\<close>, overflow to
  an infinity from \<open>2\<^sup>1\<^sup>2\<^sup>8\<close>). Zeros carry no sign: the one division of the program has a
  divisor of at least 4, so the sign of a zero is never observed.
\<close>

fun bit_length :: "nat \<Rightarrow> nat" where
  "bit_length n = (if n = 0 then 0 else Suc (bit_length (n div 2)))"

declare bit_length.simps [simp del]

definition ilog2 :: "real \<Rightarrow> int" where
  \<comment> \<open>for \<open>0 < x\<close>: the exponent \<open>e\<close> with \<open>2\<^sup>e \<le> x < 2\<^sup>e\<^sup>+\<^sup>1\<close>\<close>
  "ilog2 x =
     (if 1 \<le> x then int (bit_length (nat \<lfloor>x\<rfloor>)) - 1
      else - int (bit_length (nat \<lceil>1 / x\<rceil> - 1)))"

definition round_half_even :: "real \<Rightarrow> int" where
  "round_half_even x =
     (let f = \<lfloor>x\<rfloor>; d = x - of_int f
      in if d < 1 / 2 then f
         else if 1 / 2 < d then f + 1
         else if even f then f else f + 1)"

definition ulp :: "real \<Rightarrow> real" where
  \<comment> \<open>the spacing of the representable values around \<open>x \<noteq> 0\<close>\<close>
  "ulp x = 2 powi (max (ilog2 \<bar>x\<bar>) (- 126) - 23)"

definition round32 :: "real \<Rightarrow> float32" where
  "round32 x =
     (if x = 0 then Finite 0
      else
        let r = of_int (round_half_even (x / ulp x)) * ulp x
        in if 2 ^ 128 \<le> \<bar>r\<bar> then (if 0 < x then PlusInf else MinusInf)
           else Finite r)"

definition float_neg :: "float32 \<Rightarrow> float32" where
  "float_neg x =
     (case x of NaN \<Rightarrow> NaN | PlusInf \<Rightarrow> MinusInf | MinusInf \<Rightarrow> PlusInf
      | Finite a \<Rightarrow> Finite (- a))"

fun float_mul :: "float32 \<Rightarrow> float32 \<Rightarrow> float32" where
  "float_mul NaN y = NaN"
| "float_mul x NaN = NaN"
| "float_mul (Finite a) (Finite b) = round32 (a * b)"
| "float_mul (Finite a) y = (if a = 0 then NaN else if 0 < a then y else float_neg y)"
| "float_mul x (Finite b) = (if b = 0 then NaN else if 0 < b then x else float_neg x)"
| "float_mul x y = (if x = y then PlusInf else MinusInf)"

fun float_div :: "float32 \<Rightarrow> float32 \<Rightarrow> float32" where
  "float_div NaN y = NaN"
| "float_div x NaN = NaN"
| "float_div (Finite a) (Finite b) =
     (if b = 0 then (if a = 0 then NaN else if 0 < a then PlusInf else MinusInf)
      else round32 (a / b))"
| "float_div (Finite a) y = Finite 0"
| "float_div x (Finite b) = (if 0 \<le> b then x else float_neg x)"
| "float_div x y = NaN"

fun float_lt :: "float32 \<Rightarrow> float32 \<Rightarrow> bool" where
  "float_lt NaN y = False"
| "float_lt x NaN = False"
| "float_lt (Finite a) (Finite b) = (a < b)"
| "float_lt MinusInf y = (y \<noteq> MinusInf)"
| "float_lt x PlusInf = (x \<noteq> PlusInf)"
| "float_lt x y = False"

definition float_of_u32 :: "32 word \<Rightarrow> float32" where
  \<comment> \<open>the conversion \<^verbatim>\<open>(float)n\<close> of a \<^verbatim>\<open>uint32_t\<close>\<close>
  "float_of_u32 n = round32 (real (unat n))"

definition float_to_u32 :: "float32 \<Rightarrow> error + 32 word" where
  \<comment> \<open>the conversion \<^verbatim>\<open>(uint32_t)x\<close>: the fraction is discarded; undefined when the
      integral part is not a \<^verbatim>\<open>uint32_t\<close>\<close>
  "float_to_u32 x =
     (case x of
        Finite a \<Rightarrow>
          (let t = (if 0 \<le> a then \<lfloor>a\<rfloor> else \<lceil>a\<rceil>)
           in if 0 \<le> t \<and> t < 2 ^ 32 then Inr (word_of_int t) else Inl UndefinedConversion)
      | _ \<Rightarrow> Inl UndefinedConversion)"

subsection \<open>The tone generator\<close>

definition BUZZER_PIN :: nat where
  "BUZZER_PIN = 10"

definition clk_sys :: "32 word" where
  "clk_sys = 125000000"

definition pwm_top :: "float32 \<Rightarrow> 32 word \<Rightarrow> error + 32 word" where
  \<comment> \<open>\<^verbatim>\<open>(uint32_t)((float)clk_sys / (clk_div * (float)freq_hz)) - 1u\<close>, lines 113 and 118\<close>
  "pwm_top clk_div freq_hz =
     (case float_to_u32 (float_div (float_of_u32 clk_sys) (float_mul clk_div (float_of_u32 freq_hz))) of
        Inl e \<Rightarrow> Inl e
      | Inr q \<Rightarrow> Inr (q - 1))"

definition pwm_config :: "32 word \<Rightarrow> error + float32 \<times> 32 word" where
  \<comment> \<open>lines 111 to 124: the clock divider and the counter wrap value\<close>
  "pwm_config freq_hz =
     (case pwm_top (Finite 4) freq_hz of
        Inl e \<Rightarrow> Inl e
      | Inr top1 \<Rightarrow>
          if 65535 < top1 then
            (case pwm_top (Finite 16) freq_hz of
               Inl e \<Rightarrow> Inl e
             | Inr top2 \<Rightarrow> Inr (Finite 16, if 65535 < top2 then 65535 else top2))
          else Inr (Finite 4, top1))"

definition clamp_duty :: "float32 \<Rightarrow> float32" where
  \<comment> \<open>lines 130 to 133: two tests in sequence, the second on the result of the first\<close>
  "clamp_duty duty =
     (let duty = (if float_lt duty (Finite 0) then Finite 0 else duty)
      in if float_lt (Finite 1) duty then Finite 1 else duty)"

definition play_tone :: "nat \<Rightarrow> 32 word \<Rightarrow> 16 word \<Rightarrow> float32 \<Rightarrow> error + effect list" where
  "play_tone buzzer_slice freq_hz ms duty =
     (if freq_hz = 0 then Inr [SleepMs (ucast ms)]
      else
        case pwm_config freq_hz of
          Inl e \<Rightarrow> Inl e
        | Inr (clk_div, top1) \<Rightarrow>
            (case float_to_u32 (float_mul (float_of_u32 top1) (clamp_duty duty)) of
               Inl e \<Rightarrow> Inl e
             | Inr level \<Rightarrow>
                 Inr [PwmSetClkdiv buzzer_slice clk_div,
                      PwmSetWrap buzzer_slice top1,
                      PwmSetGpioLevel BUZZER_PIN level,
                      SleepMs (ucast ms),
                      PwmSetGpioLevel BUZZER_PIN 0]))"

definition beep_first_page :: "nat \<Rightarrow> error + effect list" where
  "beep_first_page buzzer_slice = play_tone buzzer_slice 500 90 (round32 (35 / 100))"

definition beep_last_page :: "nat \<Rightarrow> error + effect list" where
  "beep_last_page buzzer_slice = play_tone buzzer_slice 1200 90 (round32 (35 / 100))"

subsection \<open>Text layout\<close>

text \<open>
  \<^verbatim>\<open>oled_println_buf(ssd, x, y, text)\<close>. The argument \<open>text\<close> is the array that the pointer
  refers to; the C string in it ends before its first NUL, or at the end of the list. The
  pointers \<^verbatim>\<open>start\<close> and \<^verbatim>\<open>p\<close> are indices into it. The frame buffer \<^verbatim>\<open>ssd\<close> is
  written by the driver only, so it is not a parameter here: each call of the driver is
  recorded as a \<open>DrawString\<close>. The line buffer is a list of 128 characters; \<open>memcpy\<close>
  and \<open>store\<close> fail when they would write outside it. The row \<^verbatim>\<open>y\<close> is a C \<^verbatim>\<open>int\<close>
  of 32 bits: a value between \<open>-2\<^sup>3\<^sup>1\<close> and \<open>2\<^sup>3\<^sup>1 - 1\<close>, and \<^verbatim>\<open>y += LINE_H\<close> fails when
  the sum leaves that range. The lengths are \<^verbatim>\<open>int\<close>s too, here unbounded integers: on
  the target, with addresses of 32 bits, no text has \<open>2\<^sup>3\<^sup>1\<close> characters.
\<close>

definition LINE_H :: int where
  "LINE_H = 8"

definition NUL :: char where
  "NUL = CHR 0x00"

definition newline :: char where
  "newline = CHR 0x0A"

definition LINEBUF_SIZE :: nat where
  \<comment> \<open>\<^verbatim>\<open>sizeof(linebuf)\<close>\<close>
  "LINEBUF_SIZE = 128"

definition int_add :: "int \<Rightarrow> int \<Rightarrow> error + int" where
  \<comment> \<open>the sum of two \<^verbatim>\<open>int\<close>s of 32 bits; undefined when it overflows\<close>
  "int_add a b =
     (if - (2 ^ 31) \<le> a + b \<and> a + b < 2 ^ 31 then Inr (a + b) else Inl SignedOverflow)"

definition memcpy :: "string \<Rightarrow> string \<Rightarrow> int \<Rightarrow> error + string" where
  \<comment> \<open>\<^verbatim>\<open>memcpy(dst, src, n)\<close>: the first \<open>n\<close> bytes of \<open>dst\<close> become those of \<open>src\<close>\<close>
  "memcpy dst src n =
     (if 0 \<le> n \<and> nat n \<le> length dst \<and> nat n \<le> length src
      then Inr (take (nat n) src @ drop (nat n) dst)
      else Inl OutOfBounds)"

definition store :: "string \<Rightarrow> int \<Rightarrow> char \<Rightarrow> error + string" where
  \<comment> \<open>\<^verbatim>\<open>buf[i] = c\<close>\<close>
  "store buf i c =
     (if 0 \<le> i \<and> nat i < length buf then Inr (buf[nat i := c]) else Inl OutOfBounds)"

definition c_string :: "string \<Rightarrow> string" where
  \<comment> \<open>the string that a callee reads from a buffer: up to the first NUL\<close>
  "c_string buf = takeWhile (\<lambda>c. c \<noteq> NUL) buf"

definition draw_line :: "string \<Rightarrow> int \<Rightarrow> int \<Rightarrow> nat \<Rightarrow> int \<Rightarrow> string \<Rightarrow> error + string \<times> effect list" where
  \<comment> \<open>lines 177 to 181 and 198 to 202: clip the length, copy, terminate, draw\<close>
  "draw_line text x y start len linebuf =
     (case memcpy linebuf (drop start text)
             (if int LINEBUF_SIZE \<le> len then int LINEBUF_SIZE - 1 else len) of
        Inl e \<Rightarrow> Inl e
      | Inr linebuf1 \<Rightarrow>
          (case store linebuf1 (if int LINEBUF_SIZE \<le> len then int LINEBUF_SIZE - 1 else len) NUL of
             Inl e \<Rightarrow> Inl e
           | Inr linebuf2 \<Rightarrow> Inr (linebuf2, [DrawString x y (c_string linebuf2)])))"

function println_loop ::
  "string \<Rightarrow> int \<Rightarrow> int \<Rightarrow> nat \<Rightarrow> nat \<Rightarrow> string \<Rightarrow> effect list
    \<Rightarrow> error + int \<times> nat \<times> nat \<times> string \<times> effect list" where
  \<comment> \<open>the \<^verbatim>\<open>while (*p)\<close> loop, lines 170 to 192; the result is the state after the loop\<close>
  "println_loop text x y start p linebuf fx =
     (if p < length text \<and> text ! p \<noteq> NUL then
        if text ! p = newline then
          (case (if 0 < int p - int start
                 then draw_line text x y start (int p - int start) linebuf
                 else Inr (linebuf, [])) of
             Inl e \<Rightarrow> Inl e
           | Inr (linebuf1, gx) \<Rightarrow>
               (case int_add y LINE_H of
                  Inl e \<Rightarrow> Inl e
                | Inr y1 \<Rightarrow> println_loop text x y1 (p + 1) (p + 1) linebuf1 (fx @ gx)))
        else println_loop text x y start (p + 1) linebuf fx
      else Inr (y, start, p, linebuf, fx))"
  by pat_completeness auto

termination
  by (relation "measure (\<lambda>(text, x, y, start, p, linebuf, fx). length text - p)") auto

declare println_loop.simps [simp del]

definition println_last ::
  "string \<Rightarrow> int \<Rightarrow> int \<times> nat \<times> nat \<times> string \<times> effect list \<Rightarrow> error + effect list" where
  \<comment> \<open>lines 195 to 203: the last line, when the text does not end with a line break\<close>
  "println_last text x st =
     (case st of (y, start, p, linebuf, fx) \<Rightarrow>
        if start < p then
          (case draw_line text x y start (int p - int start) linebuf of
             Inl e \<Rightarrow> Inl e
           | Inr (linebuf1, gx) \<Rightarrow> Inr (fx @ gx))
        else Inr fx)"

definition oled_println_buf :: "int \<Rightarrow> int \<Rightarrow> string \<Rightarrow> error + effect list" where
  "oled_println_buf x y text =
     (case println_loop text x y 0 0 (replicate LINEBUF_SIZE NUL) [] of
        Inl e \<Rightarrow> Inl e
      | Inr st \<Rightarrow> println_last text x st)"

text \<open>
  The layout in the words of the specification: the content is split at its line breaks
  into fragments, \<open>n\<close> breaks giving \<open>n + 1\<close> fragments, the last one possibly empty; the
  fragments are placed one \<open>LINE_H\<close> below each other; a fragment that is not empty is
  drawn, cut to 127 characters.
\<close>

fun split_lines :: "string \<Rightarrow> string list" where
  "split_lines [] = [[]]"
| "split_lines (c # cs) =
     (if c = newline then [] # split_lines cs
      else (c # hd (split_lines cs)) # tl (split_lines cs))"

fun line_draws :: "int \<Rightarrow> int \<Rightarrow> string list \<Rightarrow> effect list" where
  "line_draws x y [] = []"
| "line_draws x y (l # ls) =
     (if l = [] then [] else [DrawString x y (take 127 l)]) @ line_draws x (y + LINE_H) ls"

subsection \<open>The pages and the page renderer\<close>

definition PAGES :: "string list" where
  "PAGES =
     [''              \<newline>'' @
      ''|Bem vindo! |\<newline>'' @
      ''|            |\<newline>'' @
      ''|ALUNO    |\<newline>'' @
      ''|            |\<newline>'' @
      ''|TADS Info 2B|\<newline>'' @
      ''              \<newline>'',

      ''Pagina 2\<newline>\<newline>'' @
      ''Com programacao \<newline>\<newline>'' @
      ''e robotica\<newline>'' @
      ''                \<newline>'',

      ''Pagina 3\<newline>\<newline>'' @
      ''O ceu e limite.'',

      ''Pagina 4\<newline>\<newline>'' @
      ''Obrigado'']"

definition NUM_PAGES :: int where
  \<comment> \<open>\<^verbatim>\<open>(int)(sizeof(PAGES) / sizeof(PAGES[0]))\<close>\<close>
  "NUM_PAGES = int (length PAGES)"

definition digit_char :: "nat \<Rightarrow> char" where
  "digit_char d = ''0123456789'' ! d"

fun dec_nat :: "nat \<Rightarrow> string" where
  "dec_nat n = (if n < 10 then [digit_char n] else dec_nat (n div 10) @ [digit_char (n mod 10)])"

declare dec_nat.simps [simp del]

definition dec_int :: "int \<Rightarrow> string" where
  \<comment> \<open>the conversion \<^verbatim>\<open>%d\<close>\<close>
  "dec_int i = (if i < 0 then CHR ''-'' # dec_nat (nat (- i)) else dec_nat (nat i))"

definition snprintf_footer :: "nat \<Rightarrow> int \<Rightarrow> int \<Rightarrow> string" where
  \<comment> \<open>the string left in the buffer by
      \<^verbatim>\<open>snprintf(footer, n, "A=Prox B=Voltar  %d/%d", a, b)\<close>: at most \<open>n - 1\<close> characters\<close>
  "snprintf_footer n a b =
     take (n - 1) (''A=Prox B=Voltar  '' @ dec_int a @ ''/'' @ dec_int b)"

definition render_page :: "int \<Rightarrow> error + effect list" where
  "render_page page_index =
     (if 0 \<le> page_index \<and> page_index < int (length PAGES) then
        case oled_println_buf 5 0 (PAGES ! nat page_index) of
          Inl e \<Rightarrow> Inl e
        | Inr body \<Rightarrow>
            Inr ([ClearBuffer] @ body @
                 [DrawString 0 56 (snprintf_footer 32 (page_index + 1) NUM_PAGES),
                  RenderOnDisplay])
      else Inl OutOfBounds)"

subsection \<open>The polling loop\<close>

text \<open>
  The state that the loop of \<^verbatim>\<open>main\<close> reads and writes: the globals \<^verbatim>\<open>current_page\<close>
  and \<^verbatim>\<open>buzzer_slice\<close> and the local \<^verbatim>\<open>last_change\<close>. \<^verbatim>\<open>current_page\<close> is a C
  \<^verbatim>\<open>int\<close>, here an unbounded integer: the program increments it only below
  \<open>NUM_PAGES - 1\<close> and decrements it only above 0. A time is the number of microseconds
  since boot, in 64 bits, as \<^verbatim>\<open>absolute_time_t\<close> of the SDK.

  What one iteration reads from its environment is a \<open>tick_input\<close>: the level of each
  pin, and the two values of the clock, the one compared with \<^verbatim>\<open>last_change\<close> and the
  later one stored in it.
\<close>

record state =
  current_page :: int
  buzzer_slice :: nat
  last_change :: "64 word"

record tick_input =
  gpio_get :: "nat \<Rightarrow> bool"
  time_check :: "64 word"
  time_set :: "64 word"

definition BUTTON_A_PIN :: nat where
  "BUTTON_A_PIN = 5"

definition BUTTON_B_PIN :: nat where
  "BUTTON_B_PIN = 6"

definition DEBOUNCE_MS :: int where
  "DEBOUNCE_MS = 180"

definition button_pressed :: "tick_input \<Rightarrow> nat \<Rightarrow> bool" where
  \<comment> \<open>\<^verbatim>\<open>gpio_get(pin) == 0\<close>\<close>
  "button_pressed inp pin = (gpio_get inp pin = False)"

definition absolute_time_diff_us :: "64 word \<Rightarrow> 64 word \<Rightarrow> int" where
  \<comment> \<open>of the SDK: the difference \<open>to - from\<close> read as a signed 64-bit number\<close>
  "absolute_time_diff_us from to = sint (to - from)"

definition debounce_elapsed :: "state \<Rightarrow> 64 word \<Rightarrow> bool" where
  \<comment> \<open>\<^verbatim>\<open>absolute_time_diff_us(last_change, now) / 1000 > DEBOUNCE_MS\<close>; C division truncates\<close>
  "debounce_elapsed s now =
     (DEBOUNCE_MS < absolute_time_diff_us (last_change s) now sdiv 1000)"

definition navigate :: "state \<Rightarrow> tick_input \<Rightarrow> error + state \<times> bool \<times> effect list" where
  \<comment> \<open>lines 297 to 346: the new state, the flag \<^verbatim>\<open>updated\<close> and the calls made\<close>
  "navigate s inp =
     (if button_pressed inp BUTTON_A_PIN then
        if debounce_elapsed s (time_check inp) then
          if current_page s < NUM_PAGES - 1 then
            Inr (s\<lparr>current_page := current_page s + 1, last_change := time_set inp\<rparr>, True, [])
          else
            (case beep_last_page (buzzer_slice s) of
               Inl e \<Rightarrow> Inl e
             | Inr fx \<Rightarrow> Inr (s\<lparr>last_change := time_set inp\<rparr>, False, fx))
        else Inr (s, False, [])
      else if button_pressed inp BUTTON_B_PIN then
        if debounce_elapsed s (time_check inp) then
          if 0 < current_page s then
            Inr (s\<lparr>current_page := current_page s - 1, last_change := time_set inp\<rparr>, True, [])
          else
            (case beep_first_page (buzzer_slice s) of
               Inl e \<Rightarrow> Inl e
             | Inr fx \<Rightarrow> Inr (s\<lparr>last_change := time_set inp\<rparr>, False, fx))
        else Inr (s, False, [])
      else Inr (s, False, []))"

definition main_loop_body :: "state \<Rightarrow> tick_input \<Rightarrow> error + state \<times> effect list" where
  \<comment> \<open>one iteration of \<^verbatim>\<open>while (true)\<close>, lines 297 to 362\<close>
  "main_loop_body s inp =
     (case navigate s inp of
        Inl e \<Rightarrow> Inl e
      | Inr (s1, updated, fx) \<Rightarrow>
          if updated then
            (case render_page (current_page s1) of
               Inl e \<Rightarrow> Inl e
             | Inr gx \<Rightarrow> Inr (s1, fx @ gx @ [SleepMs 10]))
          else Inr (s1, fx @ [SleepMs 10]))"

fun main_loop :: "state \<Rightarrow> tick_input list \<Rightarrow> error + state \<times> effect list" where
  \<comment> \<open>the first iterations of the loop, one for each input\<close>
  "main_loop s [] = Inr (s, [])"
| "main_loop s (inp # inps) =
     (case main_loop_body s inp of
        Inl e \<Rightarrow> Inl e
      | Inr (s1, fx) \<Rightarrow>
          (case main_loop s1 inps of
             Inl e \<Rightarrow> Inl e
           | Inr (s2, gx) \<Rightarrow> Inr (s2, fx @ gx)))"

definition main_setup :: "nat \<Rightarrow> 64 word \<Rightarrow> error + state \<times> effect list" where
  \<comment> \<open>lines 272 to 293: the blank screen, the first drawing, the start-up beep and the state
      on entering the loop; \<open>sl\<close> is the value of \<^verbatim>\<open>pwm_gpio_to_slice_num(BUZZER_PIN)\<close>
      and \<open>now\<close> the clock. The set-up of the pins and of the bus is not recorded.\<close>
  "main_setup sl now =
     (case render_page 0 of
        Inl e \<Rightarrow> Inl e
      | Inr fx \<Rightarrow>
          (case beep_first_page sl of
             Inl e \<Rightarrow> Inl e
           | Inr gx \<Rightarrow>
               Inr (\<lparr>current_page = 0, buzzer_slice = sl, last_change = now\<rparr>,
                    [ClearBuffer, RenderOnDisplay] @ fx @ gx)))"

definition main :: "nat \<Rightarrow> 64 word \<Rightarrow> tick_input list \<Rightarrow> error + state \<times> effect list" where
  \<comment> \<open>\<^verbatim>\<open>main\<close> up to the end of the iteration that reads the last input\<close>
  "main sl now inps =
     (case main_setup sl now of
        Inl e \<Rightarrow> Inl e
      | Inr (s, fx) \<Rightarrow>
          (case main_loop s inps of
             Inl e \<Rightarrow> Inl e
           | Inr (s1, gx) \<Rightarrow> Inr (s1, fx @ gx)))"

subsection \<open>Observing the calls\<close>

text \<open>
  Three tests on a recorded call, used to state the properties: whether it is a call of the
  display driver, whether it is a call of the PWM unit, and whether it ends an action of
  the pager. A page change ends with one \<^verbatim>\<open>render_on_display\<close> and a tone sets the
  counter wrap once, so the number of actions in a list of calls is the number of those two.
\<close>

fun is_display :: "effect \<Rightarrow> bool" where
  "is_display ClearBuffer = True"
| "is_display (DrawString x y s) = True"
| "is_display RenderOnDisplay = True"
| "is_display e = False"

fun is_pwm :: "effect \<Rightarrow> bool" where
  "is_pwm (PwmSetClkdiv sl d) = True"
| "is_pwm (PwmSetWrap sl t) = True"
| "is_pwm (PwmSetGpioLevel pin l) = True"
| "is_pwm e = False"

fun is_action :: "effect \<Rightarrow> bool" where
  "is_action RenderOnDisplay = True"
| "is_action (PwmSetWrap sl t) = True"
| "is_action e = False"

definition segment :: "string \<Rightarrow> nat \<Rightarrow> nat \<Rightarrow> string" where
  \<comment> \<open>the characters from \<^verbatim>\<open>start\<close> up to \<^verbatim>\<open>p\<close>, used in the loop invariant\<close>
  "segment text start p = take (p - start) (drop start text)"

section \<open>Single-precision rounding\<close>

lemma bit_length_bounds:
  "0 < n \<Longrightarrow> 2 ^ (bit_length n - 1) \<le> n \<and> n < 2 ^ bit_length n"
proof (induction n rule: bit_length.induct)
  case (1 n)
  show ?case
  proof (cases "n div 2 = 0")
    case True
    with "1.prems" have n1: "n = 1" by auto
    have "bit_length (Suc 0) = 1"
      by (simp add: bit_length.simps [of "Suc 0"] bit_length.simps [of 0])
    with n1 show ?thesis by simp
  next
    case False
    then have pos: "0 < n div 2" by simp
    from "1.prems" have n0: "n \<noteq> 0" by simp
    from "1.IH" [OF n0 pos] have
      lo: "2 ^ (bit_length (n div 2) - 1) \<le> n div 2" and hi: "n div 2 < 2 ^ bit_length (n div 2)"
      by simp_all
    have bl: "bit_length n = Suc (bit_length (n div 2))"
      using n0 by (simp add: bit_length.simps [of n])
    have blpos: "0 < bit_length (n div 2)"
      using pos by (simp add: bit_length.simps [of "n div 2"])
    define P :: nat where "P = 2 ^ (bit_length (n div 2) - 1)"
    have p2: "2 ^ bit_length (n div 2) = 2 * P"
      using blpos unfolding P_def by (cases "bit_length (n div 2)") simp_all
    have p1: "2 ^ (bit_length n - 1) = 2 * P"
      using bl p2 by simp
    have p3: "2 ^ bit_length n = 4 * P"
      using bl p2 by simp
    have "P \<le> n div 2" using lo by (simp add: P_def)
    then have A: "2 * P \<le> n" by linarith
    have "n div 2 < 2 * P" using hi p2 by simp
    then have B: "n < 4 * P" by linarith
    show ?thesis unfolding p1 p3 using A B by simp
  qed
qed

lemma real_le_pow2: "(n::nat) \<le> 2 ^ k \<Longrightarrow> real n \<le> 2 ^ k"
  using of_nat_mono [of n "2 ^ k", where 'a = real] by simp

lemma real_ge_pow2: "2 ^ k \<le> (n::nat) \<Longrightarrow> 2 ^ k \<le> real n"
  using of_nat_mono [of "2 ^ k" n, where 'a = real] by simp

lemma powi_neg_nat: "(2::real) powi (- int j) = 1 / 2 ^ j"
  by (simp add: power_int_minus field_simps)

lemma bit_length_pos: "0 < n \<Longrightarrow> 0 < bit_length n"
  by (simp add: bit_length.simps [of n])

lemma ilog2_bounds:
  assumes "0 < x"
  shows "2 powi (ilog2 x) \<le> x \<and> x < 2 powi (ilog2 x + 1)"
proof (cases "1 \<le> x")
  case True
  define n where "n = nat \<lfloor>x\<rfloor>"
  have npos: "0 < n" using True by (simp add: n_def)
  have nle: "real n \<le> x" using True by (simp add: n_def)
  have xlt: "x < real n + 1" using True unfolding n_def by linarith
  from bit_length_bounds [OF npos] have
    lo: "2 ^ (bit_length n - 1) \<le> n" and hi: "n < 2 ^ bit_length n" by simp_all
  have e: "ilog2 x = int (bit_length n) - 1"
    using True by (simp add: ilog2_def n_def)
  have e': "ilog2 x = int (bit_length n - 1)"
    using e bit_length_pos [OF npos] by simp
  have "(2::real) powi (ilog2 x) = 2 ^ (bit_length n - 1)"
    unfolding e' by (simp add: power_int_def)
  also have "\<dots> \<le> real n" using lo by (rule real_ge_pow2)
  finally have A: "2 powi (ilog2 x) \<le> x" using nle by simp
  have "n + 1 \<le> 2 ^ bit_length n" using hi by simp
  then have "real (n + 1) \<le> 2 ^ bit_length n" by (rule real_le_pow2)
  then have "real n + 1 \<le> 2 ^ bit_length n" by simp
  moreover have "(2::real) powi (ilog2 x + 1) = 2 ^ bit_length n"
    unfolding e by (simp add: power_int_def)
  ultimately have B: "x < 2 powi (ilog2 x + 1)" using xlt by simp
  from A B show ?thesis by simp
next
  case False
  then have x1: "x < 1" by simp
  define c where "c = nat \<lceil>1 / x\<rceil>"
  define m where "m = c - 1"
  have inv: "1 < 1 / x" using assms x1 by simp
  then have "2 \<le> \<lceil>1 / x\<rceil>" by linarith
  then have c2: "2 \<le> c" unfolding c_def by linarith
  then have mpos: "0 < m" by (simp add: m_def)
  have cm: "c = m + 1" using c2 by (simp add: m_def)
  have ci: "real c = of_int \<lceil>1 / x\<rceil>"
    using \<open>2 \<le> \<lceil>1 / x\<rceil>\<close> by (simp add: c_def)
  have cge: "1 / x \<le> real c"
    unfolding ci by (rule le_of_int_ceiling)
  have clt: "real c < 1 / x + 1"
    unfolding ci using ceiling_correct [of "1 / x"] by linarith
  from bit_length_bounds [OF mpos] have
    lo: "2 ^ (bit_length m - 1) \<le> m" and hi: "m < 2 ^ bit_length m" by simp_all
  define k where "k = bit_length m"
  have kpos: "0 < k" using bit_length_pos [OF mpos] by (simp add: k_def)
  have e: "ilog2 x = - int k"
    using False by (simp add: ilog2_def c_def m_def k_def)
  have "c \<le> 2 ^ k" using hi cm by (simp add: k_def)
  then have "real c \<le> 2 ^ k" by (rule real_le_pow2)
  with cge have "1 / x \<le> 2 ^ k" by linarith
  then have A: "1 / 2 ^ k \<le> x" using assms
    by (simp add: field_simps)
  have "2 ^ (k - 1) \<le> real m" using lo unfolding k_def by (rule real_ge_pow2)
  moreover have "real m < 1 / x" using clt cm by simp
  ultimately have "2 ^ (k - 1) < 1 / x" by linarith
  then have B: "x < 1 / 2 ^ (k - 1)" using assms
    by (simp add: field_simps)
  have p1: "(2::real) powi (ilog2 x) = 1 / 2 ^ k"
    unfolding e by (rule powi_neg_nat)
  have "ilog2 x + 1 = - int (k - 1)" using e kpos by simp
  then have p2: "(2::real) powi (ilog2 x + 1) = 1 / 2 ^ (k - 1)"
    by (simp only: powi_neg_nat)
  from A B p1 p2 show ?thesis by simp
qed

lemma rhe_floor_ceiling: "\<lfloor>y\<rfloor> \<le> round_half_even y \<and> round_half_even y \<le> \<lceil>y\<rceil>"
proof (cases "y - of_int \<lfloor>y\<rfloor> < 1 / 2")
  case True
  then have "round_half_even y = \<lfloor>y\<rfloor>" by (simp add: round_half_even_def Let_def)
  then show ?thesis by (simp add: floor_le_ceiling)
next
  case False
  then have "of_int \<lfloor>y\<rfloor> < y" by linarith
  then have c: "\<lceil>y\<rceil> = \<lfloor>y\<rfloor> + 1" by linarith
  have "round_half_even y = \<lfloor>y\<rfloor> \<or> round_half_even y = \<lfloor>y\<rfloor> + 1"
    by (simp add: round_half_even_def Let_def)
  then show ?thesis using c by auto
qed

lemma rhe_le: "y \<le> of_int N \<Longrightarrow> round_half_even y \<le> N"
  using rhe_floor_ceiling [of y] ceiling_le [of y N] by linarith

lemma rhe_ge: "of_int N \<le> y \<Longrightarrow> N \<le> round_half_even y"
  using rhe_floor_ceiling [of y] le_floor_iff [of N y] by linarith

lemma ulp_pos: "0 < ulp x"
  by (simp add: ulp_def)

lemma round32_between:
  assumes x: "x \<noteq> 0"
    and lo: "of_int A * ulp x \<le> x" and hi: "x \<le> of_int B * ulp x"
    and A: "- (2 ^ 128) < of_int A * ulp x" and B: "of_int B * ulp x < 2 ^ 128"
  shows "\<exists>r. round32 x = Finite r \<and> of_int A * ulp x \<le> r \<and> r \<le> of_int B * ulp x"
proof -
  define u where "u = ulp x"
  have u: "0 < u" by (simp add: u_def ulp_pos)
  define m where "m = round_half_even (x / u)"
  have "of_int A \<le> x / u" using lo u by (simp add: u_def [symmetric] field_simps)
  then have Am: "A \<le> m" unfolding m_def by (rule rhe_ge)
  have "x / u \<le> of_int B" using hi u by (simp add: u_def [symmetric] field_simps)
  then have mB: "m \<le> B" unfolding m_def by (rule rhe_le)
  have r1: "of_int A * u \<le> of_int m * u" using Am u by simp
  have r2: "of_int m * u \<le> of_int B * u" using mB u by simp
  have "\<bar>of_int m * u\<bar> < 2 ^ 128"
    using r1 r2 A B unfolding u_def [symmetric] by linarith
  then have "round32 x = Finite (of_int m * u)"
    using x by (simp add: round32_def Let_def m_def u_def)
  then show ?thesis using r1 r2 unfolding u_def by blast
qed

lemma ilog2_less: 
  assumes "0 < x" "x < 2 ^ n"
  shows "ilog2 x < int n"
proof -
  have "2 powi (ilog2 x) \<le> x" using ilog2_bounds [OF assms(1)] by simp
  then have "(2::real) powi (ilog2 x) < 2 powi (int n)" using assms(2) by simp
  then show ?thesis by (rule power_int_le_imp_less_exp [rotated]) simp_all
qed

lemma ilog2_le:
  assumes "0 < x" "x \<le> 2 ^ n"
  shows "ilog2 x \<le> int n"
proof -
  have "2 powi (ilog2 x) \<le> x" using ilog2_bounds [OF assms(1)] by simp
  then have "(2::real) powi (ilog2 x) \<le> 2 powi (int n)" using assms(2) by simp
  then show ?thesis by (rule power_int_le_imp_le_exp [rotated]) simp_all
qed

lemma ilog2_ge:
  assumes "0 < x" "2 ^ n \<le> x"
  shows "int n \<le> ilog2 x"
proof -
  have "x < 2 powi (ilog2 x + 1)" using ilog2_bounds [OF assms(1)] by simp
  then have lt: "(2::real) powi (int n) < 2 powi (ilog2 x + 1)" using assms(2) by simp
  have "int n < ilog2 x + 1"
  proof (rule ccontr)
    assume "\<not> int n < ilog2 x + 1"
    then have "ilog2 x + 1 \<le> int n" by simp
    then have "(2::real) powi (ilog2 x + 1) \<le> 2 powi (int n)"
      by (rule power_int_increasing) simp
    with lt show False by simp
  qed
  then show ?thesis by simp
qed

lemma ulp_upto:
  assumes "0 < x" "x \<le> 2 ^ n"
  shows "\<exists>k. 2 ^ n = 2 ^ k * ulp x"
proof -
  define e where "e = max (ilog2 x) (- 126)"
  have "e \<le> int n" using ilog2_le [OF assms] by (simp add: e_def)
  then have k: "0 \<le> int n - (e - 23)" by simp
  have "(2::real) powi (int n) = 2 powi (int n - (e - 23)) * 2 powi (e - 23)"
    by (simp flip: power_int_add)
  also have "(2::real) powi (int n - (e - 23)) = 2 ^ nat (int n - (e - 23))"
    using k by (simp add: power_int_nonneg_exp)
  finally have "(2::real) ^ n = 2 ^ nat (int n - (e - 23)) * ulp x"
    using assms(1) by (simp add: ulp_def e_def)
  then show ?thesis by blast
qed

lemma ulp_small:
  assumes "0 < x" "x < 2 ^ 24"
  shows "\<exists>k. ulp x = 1 / 2 ^ k"
proof -
  define e where "e = max (ilog2 x) (- 126)"
  have "ilog2 x < 24" using ilog2_less [OF assms(1), of 24] assms(2) by simp
  then have "e - 23 = - int (nat (23 - e))" by (simp add: e_def)
  then have "(2::real) powi (e - 23) = 1 / 2 ^ nat (23 - e)"
    by (simp only: powi_neg_nat)
  then have "ulp x = 1 / 2 ^ nat (23 - e)"
    using assms(1) by (simp add: ulp_def e_def)
  then show ?thesis by blast
qed

lemma round32_le_pow2:
  assumes "0 < x" "x \<le> 2 ^ n" "n \<le> 127"
  shows "\<exists>r. round32 x = Finite r \<and> 0 \<le> r \<and> r \<le> 2 ^ n"
proof -
  from ulp_upto [OF assms(1,2)] obtain k where k: "2 ^ n = 2 ^ k * ulp x" by blast
  have "(2::real) ^ n \<le> 2 ^ 127" using assms(3) by (intro power_increasing) simp_all
  then have lt: "(2::real) ^ n < 2 ^ 128" by simp
  have "\<exists>r. round32 x = Finite r \<and> of_int 0 * ulp x \<le> r \<and> r \<le> of_int (2 ^ k) * ulp x"
  proof (rule round32_between)
    show "x \<noteq> 0" using assms(1) by simp
    show "of_int 0 * ulp x \<le> x" using assms(1) by simp
    show "x \<le> of_int (2 ^ k) * ulp x" using assms(2) k by simp
    show "- (2 ^ 128) < of_int 0 * ulp x" by simp
    show "of_int (2 ^ k) * ulp x < 2 ^ 128" using lt k by simp
  qed
  then show ?thesis using k by simp
qed

lemma round32_ge_pow2:
  assumes "2 ^ j \<le> x" "x \<le> 2 ^ n" "n \<le> 127"
  shows "\<exists>r. round32 x = Finite r \<and> 2 ^ j \<le> r \<and> r \<le> 2 ^ n"
proof -
  have xpos: "0 < x" using assms(1) by (smt (verit) zero_less_power)
  from ulp_upto [OF xpos assms(2)] obtain k where k: "2 ^ n = 2 ^ k * ulp x" by blast
  have "(2::real) ^ n \<le> 2 ^ 127" using assms(3) by (intro power_increasing) simp_all
  then have lt: "(2::real) ^ n < 2 ^ 128" by simp
  have je: "int j \<le> ilog2 x" using ilog2_ge [OF xpos assms(1)] .
  then have e: "max (ilog2 x) (- 126) = ilog2 x" by simp
  have "(2::real) powi (ilog2 x) = 2 powi 23 * 2 powi (ilog2 x - 23)"
    using power_int_add [of "2::real" 23 "ilog2 x - 23"] by simp
  then have A: "2 powi (ilog2 x) = 2 ^ 23 * ulp x"
    using xpos e by (simp add: ulp_def)
  have "(2::real) powi (int j) \<le> 2 powi (ilog2 x)"
    using je by (rule power_int_increasing) simp
  then have jA: "2 ^ j \<le> 2 ^ 23 * ulp x" using A by simp
  have "\<exists>r. round32 x = Finite r \<and> of_int (2 ^ 23) * ulp x \<le> r \<and> r \<le> of_int (2 ^ k) * ulp x"
  proof (rule round32_between)
    show "x \<noteq> 0" using xpos by simp
    show "of_int (2 ^ 23) * ulp x \<le> x" using ilog2_bounds [OF xpos] A by simp
    show "x \<le> of_int (2 ^ k) * ulp x" using assms(2) k by simp
    show "- (2 ^ 128) < of_int (2 ^ 23) * ulp x" using ulp_pos [of x] by (smt (verit) mult_pos_pos of_int_pos zero_less_power)
    show "of_int (2 ^ k) * ulp x < 2 ^ 128" using lt k by simp
  qed
  then show ?thesis using k jA by auto
qed

lemma round32_le_nat:
  assumes "0 \<le> x" "x \<le> real N" "N < 2 ^ 24"
  shows "\<exists>r. round32 x = Finite r \<and> 0 \<le> r \<and> r \<le> real N"
proof (cases "x = 0")
  case True
  then show ?thesis by (simp add: round32_def)
next
  case False
  then have xpos: "0 < x" using assms(1) by simp
  have "real N < 2 ^ 24" using assms(3) by (metis of_nat_less_iff of_nat_numeral of_nat_power)
  then have x24: "x < 2 ^ 24" using assms(2) by linarith
  from ulp_small [OF xpos x24] obtain k where k: "ulp x = 1 / 2 ^ k" by blast
  have B: "of_int (int N * 2 ^ k) * ulp x = real N" by (simp add: k)
  have "\<exists>r. round32 x = Finite r \<and> of_int 0 * ulp x \<le> r \<and> r \<le> of_int (int N * 2 ^ k) * ulp x"
  proof (rule round32_between)
    show "x \<noteq> 0" by fact
    show "of_int 0 * ulp x \<le> x" using assms(1) by simp
    show "x \<le> of_int (int N * 2 ^ k) * ulp x" unfolding B by fact
    show "- (2 ^ 128) < of_int 0 * ulp x" by simp
    show "of_int (int N * 2 ^ k) * ulp x < 2 ^ 128" unfolding B using \<open>real N < 2 ^ 24\<close> by simp
  qed
  then show ?thesis unfolding B by simp
qed

lemma round32_nat_exact:
  assumes "N < 2 ^ 24"
  shows "round32 (real N) = Finite (real N)"
proof (cases "N = 0")
  case True
  then show ?thesis by (simp add: round32_def)
next
  case False
  then have xpos: "0 < real N" by simp
  have x24: "real N < 2 ^ 24" using assms by (metis of_nat_less_iff of_nat_numeral of_nat_power)
  from ulp_small [OF xpos x24] obtain k where k: "ulp (real N) = 1 / 2 ^ k" by blast
  have B: "of_int (int N * 2 ^ k) * ulp (real N) = real N" by (simp add: k)
  have "\<exists>r. round32 (real N) = Finite r \<and> of_int (int N * 2 ^ k) * ulp (real N) \<le> r \<and> r \<le> of_int (int N * 2 ^ k) * ulp (real N)"
  proof (rule round32_between)
    show "real N \<noteq> 0" using False by simp
    show "of_int (int N * 2 ^ k) * ulp (real N) \<le> real N" unfolding B by simp
    show "real N \<le> of_int (int N * 2 ^ k) * ulp (real N)" unfolding B by simp
    show "- (2 ^ 128) < of_int (int N * 2 ^ k) * ulp (real N)" unfolding B by (smt (verit) of_nat_0_le_iff zero_less_power)
    show "of_int (int N * 2 ^ k) * ulp (real N) < 2 ^ 128" unfolding B using x24 by simp
  qed
  then show ?thesis unfolding B by auto
qed

section \<open>The tone generator\<close>

lemma bit_length_numeral:
  "bit_length (numeral n) = Suc (bit_length (numeral n div 2))"
  "bit_length 0 = 0"
  "bit_length 1 = 1"
  "bit_length (Suc 0) = 1"
  by (simp_all add: bit_length.simps [of "numeral n"] bit_length.simps [of 0]
      bit_length.simps [of 1] bit_length.simps [of "Suc 0"])

lemmas float_eval = float_of_u32_def round32_def ulp_def ilog2_def bit_length_numeral
  round_half_even_def Let_def float_to_u32_def

lemma real_less_pow2: "(n::nat) < 2 ^ k \<Longrightarrow> real n < 2 ^ k"
  using of_nat_less_iff [of n "2 ^ k", where 'a = real] by simp

lemma float_of_u32_clk_sys: "float_of_u32 clk_sys = Finite 125000000"
  by (simp add: clk_sys_def float_eval)

lemma float_of_u32_range:
  assumes "f \<noteq> 0"
  shows "\<exists>a. float_of_u32 f = Finite a \<and> 1 \<le> a \<and> a \<le> 2 ^ 32"
proof -
  have "0 < unat f" using assms by (simp add: unat_gt_0)
  then have lo: "2 ^ 0 \<le> real (unat f)" by (simp del: of_nat_unat)
  have "unat f < 2 ^ 32" using unsigned_less [of f, where 'a = nat] by simp
  then have "real (unat f) < 2 ^ 32" by (rule real_less_pow2)
  then have hi: "real (unat f) \<le> 2 ^ 32" by simp
  from round32_ge_pow2 [OF lo hi] show ?thesis by (simp add: float_of_u32_def)
qed

lemma float_to_u32_Finite:
  "0 \<le> r \<Longrightarrow> r < 2 ^ 32 \<Longrightarrow> float_to_u32 (Finite r) = Inr (word_of_int \<lfloor>r\<rfloor>)"
  by (simp add: float_to_u32_def Let_def floor_less_iff)

lemma pwm_top_ok:
  assumes f: "f \<noteq> 0" and c: "c = 4 \<or> c = 16"
  shows "\<exists>q. pwm_top (Finite c) f = Inr q"
proof -
  from float_of_u32_range [OF f] obtain a where
    a: "float_of_u32 f = Finite a" "1 \<le> a" "a \<le> 2 ^ 32" by blast
  have lo: "2 ^ 2 \<le> c * a" using c a(2) by auto
  have hi: "c * a \<le> 2 ^ 36" using c a(3) by auto
  from round32_ge_pow2 [OF lo hi] obtain b where
    b: "round32 (c * a) = Finite b" "4 \<le> b" by auto
  have qpos: "0 < 125000000 / b" using b(2) by simp
  have "125000000 / b \<le> 125000000 / 4" using b(2) by (simp add: field_simps)
  then have qhi: "125000000 / b \<le> 2 ^ 25" by simp
  from round32_le_pow2 [OF qpos qhi] obtain r where
    r: "round32 (125000000 / b) = Finite r" "0 \<le> r" "r \<le> 2 ^ 25" by auto
  have "r < 2 ^ 32" using r(3) by simp
  then have "float_to_u32 (Finite r) = Inr (word_of_int \<lfloor>r\<rfloor>)"
    using r(2) by (intro float_to_u32_Finite)
  moreover have "b \<noteq> 0" using b(2) by simp
  ultimately show ?thesis
    by (simp add: pwm_top_def float_of_u32_clk_sys a(1) b(1) r(1))
qed

lemma pwm_config_ok:
  assumes f: "f \<noteq> 0"
  shows "\<exists>clk_div top1. pwm_config f = Inr (clk_div, top1) \<and> top1 \<le> 65535"
proof -
  from pwm_top_ok [OF f, of 4] obtain q4 where q4: "pwm_top (Finite 4) f = Inr q4" by auto
  from pwm_top_ok [OF f, of 16] obtain q16 where q16: "pwm_top (Finite 16) f = Inr q16" by auto
  show ?thesis
    by (simp add: pwm_config_def q4 q16 not_less)
qed

lemma clamp_duty_below: "float_lt duty (Finite 0) \<Longrightarrow> clamp_duty duty = Finite 0"
  by (simp add: clamp_duty_def)

lemma clamp_duty_above: "float_lt (Finite 1) duty \<Longrightarrow> clamp_duty duty = Finite 1"
  by (cases duty) (simp_all add: clamp_duty_def)

lemma clamp_duty_range: "duty \<noteq> NaN \<Longrightarrow> \<exists>d. clamp_duty duty = Finite d \<and> 0 \<le> d \<and> d \<le> 1"
  by (cases duty) (auto simp add: clamp_duty_def)

lemma level_ok:
  assumes t: "t \<le> (65535 :: 32 word)" and d: "0 \<le> d" "d \<le> 1"
  shows "\<exists>l. float_to_u32 (float_mul (float_of_u32 t) (Finite d)) = Inr l \<and> l \<le> t
    \<and> (d = 0 \<longrightarrow> l = 0) \<and> (d = 1 \<longrightarrow> l = t)"
proof -
  have "unat t \<le> 65535" using t by (simp add: word_le_nat_alt)
  then have t24: "unat t < 2 ^ 24" by simp
  have ft: "float_of_u32 t = Finite (real (unat t))"
    unfolding float_of_u32_def using t24 by (rule round32_nat_exact)
  have x0: "0 \<le> real (unat t) * d" using d(1) by (simp del: of_nat_unat)
  have x1: "real (unat t) * d \<le> real (unat t)" using d by (simp add: mult_left_le del: of_nat_unat)
  from round32_le_nat [OF x0 x1 t24] obtain r where
    r: "round32 (real (unat t) * d) = Finite r" "0 \<le> r" "r \<le> real (unat t)" by blast
  have "real (unat t) < 2 ^ 24" using t24 by (rule real_less_pow2)
  then have "r < 2 ^ 24" using r(3) by linarith
  then have "r < 2 ^ 32" by simp
  then have cv: "float_to_u32 (Finite r) = Inr (word_of_int \<lfloor>r\<rfloor>)"
    using r(2) by (intro float_to_u32_Finite)
  have fl: "0 \<le> \<lfloor>r\<rfloor>" "\<lfloor>r\<rfloor> \<le> int (unat t)" using r(2,3) by (simp_all add: floor_le_iff le_floor_iff) 
  have wn: "(word_of_int \<lfloor>r\<rfloor> :: 32 word) = of_nat (nat \<lfloor>r\<rfloor>)" using fl(1) by simp
  have nle: "nat \<lfloor>r\<rfloor> \<le> unat t" using fl(2) by (simp only: nat_le_iff)
  then have "unat (of_nat (nat \<lfloor>r\<rfloor>) :: 32 word) = nat \<lfloor>r\<rfloor>" by (rule le_unat_uoi)
  then have le: "(word_of_int \<lfloor>r\<rfloor> :: 32 word) \<le> t"
    unfolding wn word_le_nat_alt using nle by simp
  have z: "d = 0 \<Longrightarrow> (word_of_int \<lfloor>r\<rfloor> :: 32 word) = 0"
    using r(1) by (simp add: round32_def)
  have o: "(word_of_int \<lfloor>r\<rfloor> :: 32 word) = t" if "d = 1"
  proof -
    have "r = real (unat t)"
      using r(1) round32_nat_exact [OF t24] that by (simp del: of_nat_unat)
    then have "\<lfloor>r\<rfloor> = int (unat t)" by (simp only: floor_of_nat)
    then show ?thesis by simp
  qed
  have "float_to_u32 (float_mul (float_of_u32 t) (Finite d)) = Inr (word_of_int \<lfloor>r\<rfloor>)"
    unfolding ft using cv r(1) by (simp del: of_nat_unat)
  then show ?thesis using le z o by blast
qed

text \<open>
  C9. With a frequency of zero, \<^verbatim>\<open>play_tone\<close> is a rest: for every duration and every
  intensity its only call is \<^verbatim>\<open>sleep_ms(ms)\<close>; it configures no PWM and sets no output
  level, and it returns.
\<close>

theorem play_tone_zero_is_delay:
  "play_tone sl 0 ms duty = Inr [SleepMs (ucast ms)]"
  by (simp add: play_tone_def)

lemma play_tone_returns:
  assumes "freq_hz \<noteq> 0" and nan: "duty \<noteq> NaN"
  shows "\<exists>clk_div top1 level.
           play_tone sl freq_hz ms duty =
             Inr [PwmSetClkdiv sl clk_div, PwmSetWrap sl top1,
                  PwmSetGpioLevel BUZZER_PIN level, SleepMs (ucast ms),
                  PwmSetGpioLevel BUZZER_PIN 0]
           \<and> level \<le> top1 \<and> top1 \<le> 65535
           \<and> (float_lt duty (Finite 0) \<longrightarrow> level = 0)
           \<and> (float_lt (Finite 1) duty \<longrightarrow> level = top1)"
proof -
  from pwm_config_ok [OF assms(1)] obtain clk_div top1 where
    cfg: "pwm_config freq_hz = Inr (clk_div, top1)" "top1 \<le> 65535" by blast
  from clamp_duty_range [OF nan] obtain d where
    d: "clamp_duty duty = Finite d" "0 \<le> d" "d \<le> 1" by blast
  from level_ok [OF cfg(2) d(2,3)] obtain l where
    l: "float_to_u32 (float_mul (float_of_u32 top1) (Finite d)) = Inr l" "l \<le> top1"
       "d = 0 \<longrightarrow> l = 0" "d = 1 \<longrightarrow> l = top1" by blast
  have "play_tone sl freq_hz ms duty =
          Inr [PwmSetClkdiv sl clk_div, PwmSetWrap sl top1,
               PwmSetGpioLevel BUZZER_PIN l, SleepMs (ucast ms), PwmSetGpioLevel BUZZER_PIN 0]"
    using assms(1) by (simp add: play_tone_def cfg(1) d(1) l(1))
  moreover have "float_lt duty (Finite 0) \<longrightarrow> l = 0"
    using d(1) l(3) by (auto simp add: clamp_duty_below)
  moreover have "float_lt (Finite 1) duty \<longrightarrow> l = top1"
    using d(1) l(4) by (auto simp add: clamp_duty_above)
  ultimately show ?thesis using l(2) cfg(2) by blast
qed

text \<open>
  C10, as the code has it. Let the frequency be other than zero and the intensity be other
  than a NaN: a number or an infinity. The intensity is clamped into the range from 0 to 1
  before the level is computed. An intensity below 0 gives the same calls as the intensity
  0, and the level is then 0; an intensity above 1 gives the same calls as the intensity 1,
  and the level is then the wrap value \<open>top1\<close>, full scale. In every case
  \<^verbatim>\<open>play_tone\<close> returns, and the level it sets is at most the wrap value, which fits 16
  bits.
\<close>

theorem play_tone_clamps_duty:
  assumes "freq_hz \<noteq> 0" and "duty \<noteq> NaN"
  shows "(\<exists>d. clamp_duty duty = Finite d \<and> 0 \<le> d \<and> d \<le> 1)
       \<and> (float_lt duty (Finite 0) \<longrightarrow>
            play_tone sl freq_hz ms duty = play_tone sl freq_hz ms (Finite 0))
       \<and> (float_lt (Finite 1) duty \<longrightarrow>
            play_tone sl freq_hz ms duty = play_tone sl freq_hz ms (Finite 1))
       \<and> (\<exists>clk_div top1 level.
               play_tone sl freq_hz ms duty =
                 Inr [PwmSetClkdiv sl clk_div, PwmSetWrap sl top1,
                      PwmSetGpioLevel BUZZER_PIN level, SleepMs (ucast ms),
                      PwmSetGpioLevel BUZZER_PIN 0]
               \<and> level \<le> top1 \<and> top1 \<le> 65535
               \<and> (float_lt duty (Finite 0) \<longrightarrow> level = 0)
               \<and> (float_lt (Finite 1) duty \<longrightarrow> level = top1))"
proof (intro conjI impI)
  show "\<exists>d. clamp_duty duty = Finite d \<and> 0 \<le> d \<and> d \<le> 1"
    using assms(2) by (rule clamp_duty_range)
next
  assume "float_lt duty (Finite 0)"
  then have "clamp_duty duty = clamp_duty (Finite 0)"
    by (simp add: clamp_duty_below) (simp add: clamp_duty_def)
  then show "play_tone sl freq_hz ms duty = play_tone sl freq_hz ms (Finite 0)"
    unfolding play_tone_def by (simp cong: sum.case_cong prod.case_cong)
next
  assume "float_lt (Finite 1) duty"
  then have "clamp_duty duty = clamp_duty (Finite 1)"
    by (simp add: clamp_duty_above) (simp add: clamp_duty_def)
  then show "play_tone sl freq_hz ms duty = play_tone sl freq_hz ms (Finite 1)"
    unfolding play_tone_def by (simp cong: sum.case_cong prod.case_cong)
next
  from assms show "\<exists>clk_div top1 level.
               play_tone sl freq_hz ms duty =
                 Inr [PwmSetClkdiv sl clk_div, PwmSetWrap sl top1,
                      PwmSetGpioLevel BUZZER_PIN level, SleepMs (ucast ms),
                      PwmSetGpioLevel BUZZER_PIN 0]
               \<and> level \<le> top1 \<and> top1 \<le> 65535
               \<and> (float_lt duty (Finite 0) \<longrightarrow> level = 0)
               \<and> (float_lt (Finite 1) duty \<longrightarrow> level = top1)"
    by (rule play_tone_returns)
qed

text \<open>
  C10 as it is stated, for every call, fails at a NaN. A NaN is neither below 0 nor above
  1: both tests of the program are false for it, it is not clamped, and the conversion of
  the product to an integer is undefined.
\<close>

theorem play_tone_nan_counterexample:
  "(500 :: 32 word) \<noteq> 0
   \<and> \<not> float_lt NaN (Finite 0) \<and> \<not> float_lt (Finite 1) NaN
   \<and> clamp_duty NaN = NaN
   \<and> play_tone 5 500 90 NaN = Inl UndefinedConversion"
  by (simp add: play_tone_def pwm_config_def pwm_top_def clk_sys_def clamp_duty_def float_eval)

text \<open>The intensities \<open>-1\<close> and 2 at 500 Hz.\<close>

theorem play_tone_clamps_duty_witness:
  "(500 :: 32 word) \<noteq> 0 \<and> Finite (- 1) \<noteq> NaN \<and> Finite 2 \<noteq> NaN
   \<and> float_lt (Finite (- 1)) (Finite 0) \<and> float_lt (Finite 1) (Finite 2)
   \<and> play_tone 5 500 90 (Finite (- 1)) = play_tone 5 500 90 (Finite 0)
   \<and> play_tone 5 500 90 (Finite 2) = play_tone 5 500 90 (Finite 1)"
  using play_tone_clamps_duty [of 500 "Finite (- 1)" 5 90]
    play_tone_clamps_duty [of 500 "Finite 2" 5 90]
  by simp

section \<open>The text layout\<close>

lemma c_string_append:
  "NUL \<notin> set xs \<Longrightarrow> c_string (xs @ ys) = xs @ c_string ys"
  unfolding c_string_def by (induction xs) auto

lemma split_lines_break:
  "newline \<notin> set l \<Longrightarrow> split_lines (l @ newline # r) = l # split_lines r"
  by (induction l) auto

lemma split_lines_single: "newline \<notin> set l \<Longrightarrow> split_lines l = [l]"
  by (induction l) auto

lemma segment_Suc:
  "start \<le> p \<Longrightarrow> p < length text \<Longrightarrow> segment text start (Suc p) = segment text start p @ [text ! p]"
  unfolding segment_def
  by (simp add: Suc_diff_le take_Suc_conv_app_nth)

lemma drop_segment:
  "start \<le> p \<Longrightarrow> p \<le> length text \<Longrightarrow> drop start text = segment text start p @ drop p text"
  unfolding segment_def
  by (metis append_take_drop_id drop_drop le_add_diff_inverse2)

lemma length_segment:
  "start \<le> p \<Longrightarrow> p \<le> length text \<Longrightarrow> length (segment text start p) = p - start"
  by (simp add: segment_def)

lemma draw_line_ok:
  assumes len: "length linebuf = LINEBUF_SIZE"
    and sp: "start < p" "p \<le> length text"
    and nul: "NUL \<notin> set (segment text start p)"
  shows "\<exists>linebuf1. draw_line text x y start (int p - int start) linebuf =
           Inr (linebuf1, [DrawString x y (take 127 (segment text start p))])
         \<and> length linebuf1 = LINEBUF_SIZE"
proof -
  define n where "n = min (p - start) 127"
  define src where "src = drop start text"
  have clip: "(if int LINEBUF_SIZE \<le> int p - int start then int LINEBUF_SIZE - 1 else int p - int start) = int n"
    using sp by (auto simp add: n_def LINEBUF_SIZE_def)
  have n1: "n \<le> length linebuf" "n < length linebuf" by (simp_all add: len n_def LINEBUF_SIZE_def)
  have n2: "n \<le> length src" using sp by (simp add: n_def src_def)
  have tk: "take n src = take 127 (segment text start p)"
    by (simp add: segment_def src_def n_def min.commute)
  have nf: "NUL \<notin> set (take n src)"
    unfolding tk using nul by (meson in_set_takeD)
  have ltk: "length (take n src) = n" using n2 by simp
  define b1 where "b1 = take n src @ drop n linebuf"
  have m: "memcpy linebuf src (int n) = Inr b1"
    using n1 n2 by (simp add: memcpy_def b1_def)
  have lb1: "length b1 = LINEBUF_SIZE" using n1 ltk by (simp add: b1_def len [symmetric])
  obtain c cs where dl: "drop n linebuf = c # cs"
    using n1(2) by (cases "drop n linebuf") auto
  have upd: "b1[n := NUL] = take n src @ NUL # cs"
    unfolding b1_def dl using ltk by (simp add: list_update_append)
  have st: "store b1 (int n) NUL = Inr (b1[n := NUL])"
    using n1(2) lb1 len by (simp add: store_def)
  have cs: "c_string (b1[n := NUL]) = take n src"
    unfolding upd using nf by (simp add: c_string_append) (simp add: c_string_def)
  have "draw_line text x y start (int p - int start) linebuf =
          Inr (b1[n := NUL], [DrawString x y (take n src)])"
    unfolding draw_line_def clip src_def [symmetric] by (simp add: m st cs)
  then show ?thesis using lb1 tk by simp
qed

lemma count_newline_segment:
  "newline \<notin> set l \<Longrightarrow> count_list (l @ newline # r) newline = Suc (count_list r newline)"
  by (simp add: count_list_0_iff)

lemma println_loop_spec:
  assumes "start \<le> p" "p \<le> length text"
    and "NUL \<notin> set (segment text start p)" "newline \<notin> set (segment text start p)"
    and "length linebuf = LINEBUF_SIZE"
    and "- (2 ^ 31) \<le> y" "y < 2 ^ 31"
  shows "(case println_loop text x y start p linebuf fx of
            Inl e \<Rightarrow> Inl e
          | Inr st \<Rightarrow> println_last text x st) =
         (if y + LINE_H * int (count_list (c_string (drop start text)) newline) < 2 ^ 31
          then Inr (fx @ line_draws x y (split_lines (c_string (drop start text))))
          else Inl SignedOverflow)"
  using assms
proof (induction "text" x y start p linebuf fx rule: println_loop.induct)
  case (1 tx x y start p linebuf fx)
  note sp = \<open>start \<le> p\<close> \<open>p \<le> length tx\<close>
  note seg = \<open>NUL \<notin> set (segment tx start p)\<close> \<open>newline \<notin> set (segment tx start p)\<close>
  note len = \<open>length linebuf = LINEBUF_SIZE\<close>
  note yr = \<open>- (2 ^ 31) \<le> y\<close> \<open>y < 2 ^ 31\<close>
  show ?case
  proof (cases "p < length tx \<and> tx ! p \<noteq> NUL")
    case False
    then have stop: "p = length tx \<or> tx ! p = NUL" using sp by auto
    have loop: "println_loop tx x y start p linebuf fx = Inr (y, start, p, linebuf, fx)"
      using False by (subst println_loop.simps) auto
    have "c_string (drop p tx) = []"
    proof (cases "p = length tx")
      case True then show ?thesis by (simp add: c_string_def)
    next
      case False
      with stop sp have "p < length tx" "tx ! p = NUL" by auto
      then have "drop p tx = NUL # drop (Suc p) tx" using Cons_nth_drop_Suc [of p tx] by simp
      then show ?thesis by (simp add: c_string_def)
    qed
    then have cs: "c_string (drop start tx) = segment tx start p"
      using drop_segment [OF sp] seg(1) by (simp add: c_string_append)
    have sl: "split_lines (c_string (drop start tx)) = [segment tx start p]"
      unfolding cs using seg(2) by (rule split_lines_single)
    have cnt: "count_list (c_string (drop start tx)) newline = 0"
      unfolding cs using seg(2) by (simp add: count_list_0_iff)
    show ?thesis
    proof (cases "start < p")
      case True
      from draw_line_ok [OF len True sp(2) seg(1)] obtain b where
        "draw_line tx x y start (int p - int start) linebuf =
           Inr (b, [DrawString x y (take 127 (segment tx start p))])" by blast
      moreover have "segment tx start p \<noteq> []"
        using True sp length_segment [OF sp] by auto
      ultimately show ?thesis using True yr(2) by (simp add: loop println_last_def sl cnt)
    next
      case False
      then have "segment tx start p = []" by (simp add: segment_def)
      then show ?thesis using False yr(2) by (simp add: loop println_last_def sl cnt)
    qed
  next
    case True
    then have plt: "p < length tx" and pnul: "tx ! p \<noteq> NUL" by simp_all
    have dp: "drop p tx = tx ! p # drop (Suc p) tx"
      using plt by (simp add: Cons_nth_drop_Suc)
    show ?thesis
    proof (cases "tx ! p = newline")
      case False
      have loop: "println_loop tx x y start p linebuf fx =
                    println_loop tx x y start (p + 1) linebuf fx"
        using True False by (subst println_loop.simps) simp
      have s1: "segment tx start (Suc p) = segment tx start p @ [tx ! p]"
        using sp(1) plt by (rule segment_Suc)
      have "(case println_loop tx x y start (p + 1) linebuf fx of
                Inl e \<Rightarrow> Inl e
              | Inr st \<Rightarrow> println_last tx x st) =
            (if y + LINE_H * int (count_list (c_string (drop start tx)) newline) < 2 ^ 31
             then Inr (fx @ line_draws x y (split_lines (c_string (drop start tx))))
             else Inl SignedOverflow)"
      proof (rule "1.IH"(2))
        show "p < length tx \<and> tx ! p \<noteq> NUL" by fact
        show "tx ! p \<noteq> newline" by fact
        show "start \<le> p + 1" using sp by simp
        show "p + 1 \<le> length tx" using plt by simp
        show "NUL \<notin> set (segment tx start (p + 1))" using seg(1) pnul by (simp add: s1)
        show "newline \<notin> set (segment tx start (p + 1))" using seg(2) False by (simp add: s1)
        show "length linebuf = LINEBUF_SIZE" by fact
        show "- (2 ^ 31) \<le> y" "y < 2 ^ 31" by fact+
      qed
      then show ?thesis by (simp only: loop)
    next
      case nl: True
      have cs: "c_string (drop start tx) =
                  segment tx start p @ newline # c_string (drop (p + 1) tx)"
        using drop_segment [OF sp] dp seg(1) nl
        by (simp add: c_string_append) (simp add: c_string_def NUL_def newline_def)
      have sl: "split_lines (c_string (drop start tx)) =
                  segment tx start p # split_lines (c_string (drop (p + 1) tx))"
        unfolding cs using seg(2) by (rule split_lines_break)
      have cnt: "count_list (c_string (drop start tx)) newline =
                   Suc (count_list (c_string (drop (p + 1) tx)) newline)"
        unfolding cs using seg(2) by (rule count_newline_segment)
      have e0: "segment tx (Suc p) (Suc p) = []" by (simp add: segment_def)
      have nn: "newline \<noteq> NUL" using pnul nl by simp
      define gx where
        "gx = (if segment tx start p = [] then []
               else [DrawString x y (take 127 (segment tx start p))])"
      have "\<exists>b. (if 0 < int p - int start
                 then draw_line tx x y start (int p - int start) linebuf
                 else Inr (linebuf, [])) = Inr (b, gx) \<and> length b = LINEBUF_SIZE"
      proof (cases "start < p")
        case lt: True
        from draw_line_ok [OF len lt sp(2) seg(1)] obtain b where
          b: "draw_line tx x y start (int p - int start) linebuf =
                Inr (b, [DrawString x y (take 127 (segment tx start p))])"
             "length b = LINEBUF_SIZE" by blast
        have "segment tx start p \<noteq> []"
          using lt length_segment [OF sp] by auto
        then show ?thesis using lt b by (simp add: gx_def)
      next
        case ge: False
        then have "segment tx start p = []" by (simp add: segment_def)
        then show ?thesis using ge len by (simp add: gx_def)
      qed
      then obtain b where
        c: "(if 0 < int p - int start
             then draw_line tx x y start (int p - int start) linebuf
             else Inr (linebuf, [])) = Inr (b, gx)"
        and lb: "length b = LINEBUF_SIZE" by blast
      have ld: "line_draws x y (split_lines (c_string (drop start tx))) =
                  gx @ line_draws x (y + LINE_H) (split_lines (c_string (drop (p + 1) tx)))"
        by (simp add: sl gx_def)
      show ?thesis
      proof (cases "y + LINE_H < 2 ^ 31")
        case False
        then have ov: "int_add y LINE_H = Inl SignedOverflow" by (simp add: int_add_def)
        have loop: "println_loop tx x y start p linebuf fx = Inl SignedOverflow"
          by (subst println_loop.simps)
            (simp only: plt nn nl c ov simp_thms if_True sum.case prod.case)
        have "0 \<le> LINE_H * int (count_list (c_string (drop (p + 1) tx)) newline)"
          by (simp add: LINE_H_def)
        then have "\<not> y + LINE_H * int (count_list (c_string (drop start tx)) newline) < 2 ^ 31"
          using False unfolding cnt by (simp add: algebra_simps)
        then show ?thesis by (simp add: loop)
      next
        case fits: True
        have "- (2 ^ 31) \<le> y + LINE_H" using yr(1) by (simp add: LINE_H_def)
        then have ok: "int_add y LINE_H = Inr (y + LINE_H)"
          using fits by (simp add: int_add_def)
        have loop: "println_loop tx x y start p linebuf fx =
                      println_loop tx x (y + LINE_H) (p + 1) (p + 1) b (fx @ gx)"
          by (subst println_loop.simps)
            (simp only: plt nn nl c ok simp_thms if_True sum.case prod.case)
        have "(case println_loop tx x (y + LINE_H) (p + 1) (p + 1) b (fx @ gx) of
                  Inl e \<Rightarrow> Inl e
                | Inr st \<Rightarrow> println_last tx x st) =
              (if y + LINE_H + LINE_H * int (count_list (c_string (drop (p + 1) tx)) newline) < 2 ^ 31
               then Inr ((fx @ gx) @ line_draws x (y + LINE_H) (split_lines (c_string (drop (p + 1) tx))))
               else Inl SignedOverflow)"
        proof (rule "1.IH"(1))
          show "p < length tx \<and> tx ! p \<noteq> NUL" by fact
          show "tx ! p = newline" by fact
          show "(if 0 < int p - int start
                 then draw_line tx x y start (int p - int start) linebuf
                 else Inr (linebuf, [])) = Inr (b, gx)" by (fact c)
          show "(b, gx) = (b, gx)" by simp
          show "int_add y LINE_H = Inr (y + LINE_H)" by (fact ok)
          show "p + 1 \<le> p + 1" by simp
          show "p + 1 \<le> length tx" using plt by simp
          show "NUL \<notin> set (segment tx (p + 1) (p + 1))" by (simp add: e0)
          show "newline \<notin> set (segment tx (p + 1) (p + 1))" by (simp add: e0)
          show "length b = LINEBUF_SIZE" by fact
          show "- (2 ^ 31) \<le> y + LINE_H" by fact
          show "y + LINE_H < 2 ^ 31" by fact
        qed
        moreover have "y + LINE_H * int (count_list (c_string (drop start tx)) newline) =
                       y + LINE_H + LINE_H * int (count_list (c_string (drop (p + 1) tx)) newline)"
          unfolding cnt by (simp add: algebra_simps)
        ultimately show ?thesis by (simp only: loop ld append_assoc)
      qed
    qed
  qed
qed

lemma oled_println_buf_eq:
  assumes "- (2 ^ 31) \<le> y" "y < 2 ^ 31"
  shows "oled_println_buf x y text =
     (if y + LINE_H * int (count_list (c_string text) newline) < 2 ^ 31
      then Inr (line_draws x y (split_lines (c_string text)))
      else Inl SignedOverflow)"
proof -
  have "(case println_loop text x y 0 0 (replicate LINEBUF_SIZE NUL) [] of
            Inl e \<Rightarrow> Inl e
          | Inr st \<Rightarrow> println_last text x st) =
         (if y + LINE_H * int (count_list (c_string (drop 0 text)) newline) < 2 ^ 31
          then Inr ([] @ line_draws x y (split_lines (c_string (drop 0 text))))
          else Inl SignedOverflow)"
    using assms by (intro println_loop_spec) (simp_all add: segment_def)
  then show ?thesis by (simp add: oled_println_buf_def)
qed

lemma row_overflow:
  "oled_println_buf 5 2147483640 ''a\<newline>b'' = Inl SignedOverflow"
  by (simp add: oled_println_buf_eq c_string_def NUL_def newline_def LINE_H_def)

lemma line_draws_member:
  "k < length ls \<Longrightarrow> ls ! k \<noteq> [] \<Longrightarrow>
     DrawString x (y + LINE_H * int k) (take 127 (ls ! k)) \<in> set (line_draws x y ls)"
proof (induction ls arbitrary: y k)
  case Nil
  then show ?case by simp
next
  case (Cons l ls)
  show ?case
  proof (cases k)
    case 0
    with Cons.prems show ?thesis by simp
  next
    case (Suc j)
    with Cons.prems have "j < length ls" "ls ! j \<noteq> []" by simp_all
    from Cons.IH [OF this, of "y + LINE_H"] show ?thesis
      using Suc by (simp add: algebra_simps)
  qed
qed

lemma line_draws_only:
  "e \<in> set (line_draws x y ls) \<Longrightarrow>
     \<exists>k<length ls. ls ! k \<noteq> [] \<and> e = DrawString x (y + LINE_H * int k) (take 127 (ls ! k))"
proof (induction ls arbitrary: y)
  case Nil
  then show ?case by simp
next
  case (Cons l ls)
  from Cons.prems consider
    (hd) "l \<noteq> []" "e = DrawString x y (take 127 l)"
    | (tl) "e \<in> set (line_draws x (y + LINE_H) ls)"
    by (auto split: if_splits)
  then show ?case
  proof cases
    case hd
    then have "(l # ls) ! 0 \<noteq> [] \<and> e = DrawString x (y + LINE_H * int 0) (take 127 ((l # ls) ! 0))"
      by simp
    then show ?thesis by blast
  next
    case tl
    from Cons.IH [OF tl] obtain j where
      j: "j < length ls" "ls ! j \<noteq> []"
         "e = DrawString x (y + LINE_H + LINE_H * int j) (take 127 (ls ! j))" by blast
    have "Suc j < length (l # ls) \<and> (l # ls) ! Suc j \<noteq> []
          \<and> e = DrawString x (y + LINE_H * int (Suc j)) (take 127 ((l # ls) ! Suc j))"
      using j by (simp add: algebra_simps)
    then show ?thesis by blast
  qed
qed

text \<open>
  C8. The row \<open>y\<close> is an \<^verbatim>\<open>int\<close>. No text, however long its lines are, makes
  \<^verbatim>\<open>oled_println_buf\<close> write outside its line buffer. When the row of every line is an
  \<^verbatim>\<open>int\<close>, the routine returns: every line that is not empty is drawn at its row, cut to
  its first 127 characters, and nothing else is drawn. Otherwise the routine fails in
  \<^verbatim>\<open>y += LINE_H\<close>, whatever the lengths of the lines are.
\<close>

theorem oled_println_buf_truncates:
  assumes "- (2 ^ 31) \<le> y" "y < 2 ^ 31"
  shows "oled_println_buf x y text \<noteq> Inl OutOfBounds
     \<and> (y + LINE_H * int (count_list (c_string text) newline) < 2 ^ 31 \<longrightarrow>
          (\<exists>fx. oled_println_buf x y text = Inr fx
             \<and> (\<forall>k<length (split_lines (c_string text)).
                   split_lines (c_string text) ! k \<noteq> [] \<longrightarrow>
                   DrawString x (y + LINE_H * int k) (take 127 (split_lines (c_string text) ! k))
                     \<in> set fx)
             \<and> (\<forall>e\<in>set fx. \<exists>k<length (split_lines (c_string text)).
                   split_lines (c_string text) ! k \<noteq> [] \<and>
                   e = DrawString x (y + LINE_H * int k)
                         (take 127 (split_lines (c_string text) ! k)))))
     \<and> (\<not> y + LINE_H * int (count_list (c_string text) newline) < 2 ^ 31 \<longrightarrow>
          oled_println_buf x y text = Inl SignedOverflow)"
  using line_draws_member [of _ "split_lines (c_string text)" x y]
    line_draws_only [of _ x y "split_lines (c_string text)"]
  by (simp add: oled_println_buf_eq [OF assms])

lemma c_string_replicate: "c \<noteq> NUL \<Longrightarrow> c_string (replicate n c) = replicate n c"
  by (simp add: c_string_def)

text \<open>A line of 200 characters: its first 127 characters are drawn, and nothing else.\<close>

theorem oled_println_buf_truncates_witness:
  "- (2 ^ 31) \<le> (0 :: int) \<and> (0 :: int) < 2 ^ 31
   \<and> 0 + LINE_H * int (count_list (c_string (replicate 200 (CHR ''a''))) newline) < 2 ^ 31
   \<and> (\<exists>fx. oled_println_buf 5 0 (replicate 200 (CHR ''a'')) = Inr fx
     \<and> DrawString 5 0 (replicate 127 (CHR ''a'')) \<in> set fx
     \<and> (\<forall>e\<in>set fx. e = DrawString 5 0 (replicate 127 (CHR ''a''))))"
proof -
  have cs: "c_string (replicate 200 (CHR ''a'')) = replicate 200 (CHR ''a'')"
    by (rule c_string_replicate) (simp add: NUL_def)
  have sl: "split_lines (replicate 200 (CHR ''a'')) = [replicate 200 (CHR ''a'')]"
    by (rule split_lines_single) (simp add: newline_def)
  have cn: "count_list (replicate 200 (CHR ''a'')) newline = 0"
    by (simp add: count_list_0_iff newline_def)
  show ?thesis
    using oled_println_buf_truncates [of 0 5 "replicate 200 (CHR ''a'')"]
    by (simp add: cs sl cn)
qed

lemma three_breaks:
  assumes "count_list s newline = 3"
  shows "\<exists>l0 l1 l2 l3. s = l0 @ newline # l1 @ newline # l2 @ newline # l3
     \<and> newline \<notin> set l0 \<and> newline \<notin> set l1 \<and> newline \<notin> set l2 \<and> newline \<notin> set l3"
proof -
  have step: "\<exists>l r. t = l @ newline # r \<and> newline \<notin> set l \<and> count_list r newline = n"
    if "count_list t newline = Suc n" for t n
  proof -
    from that have "newline \<in> set t" by (metis count_list_0_iff nat.distinct(1))
    then obtain l r where lr: "t = l @ newline # r" "newline \<notin> set l"
      by (meson split_list_first)
    then have "count_list l newline = 0" by (simp add: count_list_0_iff)
    with that lr(1) have "count_list r newline = n" by simp
    with lr show ?thesis by blast
  qed
  from assms have "count_list s newline = Suc 2" by simp
  from step [OF this] obtain l0 r0 where
    a: "s = l0 @ newline # r0" "newline \<notin> set l0" "count_list r0 newline = 2" by blast
  from a(3) have "count_list r0 newline = Suc 1" by simp
  from step [OF this] obtain l1 r1 where
    b: "r0 = l1 @ newline # r1" "newline \<notin> set l1" "count_list r1 newline = 1" by blast
  from b(3) have "count_list r1 newline = Suc 0" by simp
  from step [OF this] obtain l2 r2 where
    c: "r1 = l2 @ newline # r2" "newline \<notin> set l2" "count_list r2 newline = 0" by blast
  from c(3) have "newline \<notin> set r2" by (simp add: count_list_0_iff)
  with a b c show ?thesis by blast
qed

text \<open>
  C7, as the code has it. Let the text have exactly three line breaks and let the rows
  \<open>y\<close> to \<open>y + 3 * LINE_H\<close> be \<^verbatim>\<open>int\<close>s, as they are from the row 0 that
  \<^verbatim>\<open>render_page\<close> passes. The text is split into exactly four fragments, the last one
  possibly empty, and fragment \<open>k\<close> belongs to the row \<open>y + k * LINE_H\<close>. A fragment that
  is not empty is drawn at its row, cut to 127 characters; for an empty fragment, the
  trailing one included, nothing is drawn. So the routine makes between zero and four
  calls of the driver, and four only when no fragment is empty.
\<close>

theorem oled_println_buf_three_breaks:
  assumes "count_list (c_string text) newline = 3"
    and "- (2 ^ 31) \<le> y" "y + 3 * LINE_H < 2 ^ 31"
  shows "\<exists>l0 l1 l2 l3.
      c_string text = l0 @ newline # l1 @ newline # l2 @ newline # l3
    \<and> newline \<notin> set l0 \<and> newline \<notin> set l1 \<and> newline \<notin> set l2 \<and> newline \<notin> set l3
    \<and> oled_println_buf x y text =
        Inr ((if l0 = [] then [] else [DrawString x y (take 127 l0)]) @
             (if l1 = [] then [] else [DrawString x (y + LINE_H) (take 127 l1)]) @
             (if l2 = [] then [] else [DrawString x (y + 2 * LINE_H) (take 127 l2)]) @
             (if l3 = [] then [] else [DrawString x (y + 3 * LINE_H) (take 127 l3)]))"
proof -
  from three_breaks [OF assms(1)] obtain l0 l1 l2 l3 where
    s: "c_string text = l0 @ newline # l1 @ newline # l2 @ newline # l3"
    and n: "newline \<notin> set l0" "newline \<notin> set l1" "newline \<notin> set l2" "newline \<notin> set l3"
    by blast
  have sl: "split_lines (c_string text) = [l0, l1, l2, l3]"
    unfolding s using n by (simp add: split_lines_break split_lines_single)
  have y: "y < 2 ^ 31" using assms(3) by (simp add: LINE_H_def)
  have fits: "y + LINE_H * int (count_list (c_string text) newline) < 2 ^ 31"
    using assms(1,3) by (simp add: algebra_simps)
  have "oled_println_buf x y text = Inr (line_draws x y (split_lines (c_string text)))"
    using oled_println_buf_eq [OF assms(2) y, of x "text"] fits by simp
  then have "oled_println_buf x y text =
        Inr ((if l0 = [] then [] else [DrawString x y (take 127 l0)]) @
             (if l1 = [] then [] else [DrawString x (y + LINE_H) (take 127 l1)]) @
             (if l2 = [] then [] else [DrawString x (y + 2 * LINE_H) (take 127 l2)]) @
             (if l3 = [] then [] else [DrawString x (y + 3 * LINE_H) (take 127 l3)]))"
    by (simp add: sl)
  with s n show ?thesis by blast
qed

text \<open>
  C7 as it is stated fails: this text has three line breaks, and from the row 0 two lines
  are drawn, not four, the second of them two rows below the first.
\<close>

theorem oled_println_buf_four_entries_counterexample:
  "count_list (c_string ''a\<newline>\<newline>b\<newline>'') newline = 3
   \<and> oled_println_buf 5 0 ''a\<newline>\<newline>b\<newline>'' = Inr [DrawString 5 0 ''a'', DrawString 5 16 ''b'']"
  by (simp add: oled_println_buf_eq c_string_def NUL_def newline_def LINE_H_def)

text \<open>The same text from the row 0: its four fragments are found.\<close>

theorem oled_println_buf_three_breaks_witness:
  "count_list (c_string ''a\<newline>\<newline>b\<newline>'') newline = 3
   \<and> - (2 ^ 31) \<le> (0 :: int) \<and> 0 + 3 * LINE_H < 2 ^ 31
   \<and> (\<exists>l0 l1 l2 l3.
      c_string ''a\<newline>\<newline>b\<newline>'' = l0 @ newline # l1 @ newline # l2 @ newline # l3
    \<and> oled_println_buf 5 0 ''a\<newline>\<newline>b\<newline>'' =
        Inr ((if l0 = [] then [] else [DrawString 5 0 (take 127 l0)]) @
             (if l1 = [] then [] else [DrawString 5 (0 + LINE_H) (take 127 l1)]) @
             (if l2 = [] then [] else [DrawString 5 (0 + 2 * LINE_H) (take 127 l2)]) @
             (if l3 = [] then [] else [DrawString 5 (0 + 3 * LINE_H) (take 127 l3)])))"
proof -
  have c: "count_list (c_string ''a\<newline>\<newline>b\<newline>'') newline = 3"
    by (simp add: c_string_def NUL_def newline_def)
  have lo: "- (2 ^ 31) \<le> (0 :: int)" by simp
  have hi: "0 + 3 * LINE_H < 2 ^ 31" by (simp add: LINE_H_def)
  from oled_println_buf_three_breaks [OF c lo hi, of 5] show ?thesis
    using c lo hi by blast
qed

section \<open>The page renderer\<close>

lemmas tone_eval = play_tone_def pwm_config_def pwm_top_def clk_sys_def clamp_duty_def float_eval

lemma beep_first_page_eq:
  "beep_first_page sl =
     Inr [PwmSetClkdiv sl (Finite 4), PwmSetWrap sl 62499, PwmSetGpioLevel BUZZER_PIN 21874,
          SleepMs 90, PwmSetGpioLevel BUZZER_PIN 0]"
  by (simp add: beep_first_page_def tone_eval)

lemma beep_last_page_eq:
  "beep_last_page sl =
     Inr [PwmSetClkdiv sl (Finite 4), PwmSetWrap sl 26040, PwmSetGpioLevel BUZZER_PIN 9114,
          SleepMs 90, PwmSetGpioLevel BUZZER_PIN 0]"
  by (simp add: beep_last_page_def tone_eval)

lemma NUM_PAGES_eq: "NUM_PAGES = 4"
  by (simp add: NUM_PAGES_def PAGES_def)

lemma dec_nat_digit: "n < 10 \<Longrightarrow> dec_nat n = [digit_char n]"
  by (simp add: dec_nat.simps [of n])

lemma dec_int_digit: "0 \<le> i \<Longrightarrow> i < 10 \<Longrightarrow> dec_int i = [digit_char (nat i)]"
  by (simp add: dec_int_def dec_nat_digit)

lemma snprintf_footer_digits:
  "0 \<le> a \<Longrightarrow> a < 10 \<Longrightarrow> 0 \<le> b \<Longrightarrow> b < 10 \<Longrightarrow>
     snprintf_footer 32 a b = ''A=Prox B=Voltar  '' @ dec_int a @ ''/'' @ dec_int b"
  by (simp add: snprintf_footer_def dec_int_digit)

lemma page_breaks:
  assumes "i < 4"
  shows "count_list (c_string (PAGES ! i)) newline \<le> 7"
proof -
  from assms have "i = 0 \<or> i = 1 \<or> i = 2 \<or> i = 3" by arith
  then show ?thesis
    by (auto simp add: PAGES_def c_string_def NUL_def newline_def)
qed

lemma page_body:
  assumes "0 \<le> i" "i < NUM_PAGES"
  shows "oled_println_buf 5 0 (PAGES ! nat i) =
           Inr (line_draws 5 0 (split_lines (c_string (PAGES ! nat i))))"
proof -
  have "nat i < 4" using assms by (simp add: NUM_PAGES_eq)
  then have "count_list (c_string (PAGES ! nat i)) newline \<le> 7" by (rule page_breaks)
  then have "0 + LINE_H * int (count_list (c_string (PAGES ! nat i)) newline) < 2 ^ 31"
    by (simp add: LINE_H_def)
  then show ?thesis
    using oled_println_buf_eq [of 0 5 "PAGES ! nat i"] by simp
qed

lemma render_page_eq:
  assumes "0 \<le> i" "i < NUM_PAGES"
  shows "render_page i =
     Inr ([ClearBuffer] @ line_draws 5 0 (split_lines (c_string (PAGES ! nat i))) @
          [DrawString 0 56 (''A=Prox B=Voltar  '' @ dec_int (i + 1) @ ''/'' @ dec_int NUM_PAGES),
           RenderOnDisplay])"
proof -
  have "snprintf_footer 32 (i + 1) NUM_PAGES =
          ''A=Prox B=Voltar  '' @ dec_int (i + 1) @ ''/'' @ dec_int NUM_PAGES"
    using assms by (intro snprintf_footer_digits) (simp_all add: NUM_PAGES_eq)
  then show ?thesis
    using assms page_body [OF assms] by (simp add: render_page_def NUM_PAGES_def)
qed

text \<open>
  C6. For every index \<open>i\<close> of the catalogue, \<^verbatim>\<open>render_page\<close> clears the buffer, draws the
  body of page \<open>i\<close>, draws at column 0 of row 56 the footer
  \<open>A=Prox B=Voltar  \<close>\<open>i + 1\<close>\<open>/\<close>\<open>NUM_PAGES\<close> in decimal, and updates the display. The
  catalogue of the program has 4 pages, and for the index 2 the footer is exactly
  \<open>A=Prox B=Voltar  3/4\<close>.
\<close>

theorem render_page_footer:
  "(0 \<le> i \<and> i < NUM_PAGES \<longrightarrow>
      render_page i =
        Inr ([ClearBuffer] @ line_draws 5 0 (split_lines (c_string (PAGES ! nat i))) @
             [DrawString 0 56 (''A=Prox B=Voltar  '' @ dec_int (i + 1) @ ''/'' @ dec_int NUM_PAGES),
              RenderOnDisplay]))
   \<and> NUM_PAGES = 4
   \<and> render_page 2 =
        Inr ([ClearBuffer] @ line_draws 5 0 (split_lines (c_string (PAGES ! 2))) @
             [DrawString 0 56 ''A=Prox B=Voltar  3/4'', RenderOnDisplay])"
proof (intro conjI impI)
  assume "0 \<le> i \<and> i < NUM_PAGES"
  then show "render_page i =
        Inr ([ClearBuffer] @ line_draws 5 0 (split_lines (c_string (PAGES ! nat i))) @
             [DrawString 0 56 (''A=Prox B=Voltar  '' @ dec_int (i + 1) @ ''/'' @ dec_int NUM_PAGES),
              RenderOnDisplay])"
    by (simp add: render_page_eq)
next
  show "NUM_PAGES = 4" by (rule NUM_PAGES_eq)
next
  have "render_page 2 =
     Inr ([ClearBuffer] @ line_draws 5 0 (split_lines (c_string (PAGES ! nat 2))) @
          [DrawString 0 56 (''A=Prox B=Voltar  '' @ dec_int (2 + 1) @ ''/'' @ dec_int NUM_PAGES),
           RenderOnDisplay])"
    by (rule render_page_eq) (simp_all add: NUM_PAGES_eq)
  then show "render_page 2 =
        Inr ([ClearBuffer] @ line_draws 5 0 (split_lines (c_string (PAGES ! 2))) @
             [DrawString 0 56 ''A=Prox B=Voltar  3/4'', RenderOnDisplay])"
    by (simp add: NUM_PAGES_eq dec_int_digit digit_char_def)
qed

lemma split_lines_eval:
  "split_lines (c # cs) =
     (let r = split_lines cs in if c = newline then [] # r else (c # hd r) # tl r)"
  by (simp add: Let_def)

lemmas layout_eval = c_string_def NUL_def newline_def LINE_H_def split_lines_eval Let_def

text \<open>The last page, drawn in full.\<close>

theorem render_page_footer_witness:
  "(0::int) \<le> 3 \<and> 3 < NUM_PAGES \<and>
   render_page 3 =
     Inr [ClearBuffer, DrawString 5 0 ''Pagina 4'', DrawString 5 16 ''Obrigado'',
          DrawString 0 56 ''A=Prox B=Voltar  4/4'', RenderOnDisplay]"
  using render_page_footer [of 3]
  by (simp add: NUM_PAGES_eq PAGES_def layout_eval dec_int_digit digit_char_def
      del: split_lines.simps(2))

section \<open>The polling loop\<close>

lemma is_pwm_line_draws: "filter is_pwm (line_draws x y ls) = []"
  by (induction ls arbitrary: y) simp_all

lemma is_action_line_draws: "filter is_action (line_draws x y ls) = []"
  by (induction ls arbitrary: y) simp_all

lemmas body_eval = main_loop_body_def navigate_def beep_first_page_eq beep_last_page_eq
  render_page_eq NUM_PAGES_eq

lemma main_loop_body_inv:
  assumes "0 \<le> current_page s" "current_page s < NUM_PAGES"
  shows "\<exists>s1 fx. main_loop_body s inp = Inr (s1, fx)
           \<and> 0 \<le> current_page s1 \<and> current_page s1 < NUM_PAGES"
  using assms by (simp add: body_eval)

lemma main_loop_inv:
  assumes "0 \<le> current_page s" "current_page s < NUM_PAGES"
  shows "\<exists>s1 fx. main_loop s inps = Inr (s1, fx)
           \<and> 0 \<le> current_page s1 \<and> current_page s1 < NUM_PAGES"
  using assms
proof (induction inps arbitrary: s)
  case Nil
  then show ?case by simp
next
  case (Cons inp inps)
  from main_loop_body_inv [OF Cons.prems, of inp] obtain s1 fx where
    b: "main_loop_body s inp = Inr (s1, fx)" "0 \<le> current_page s1" "current_page s1 < NUM_PAGES"
    by blast
  from Cons.IH [OF b(2,3)] obtain s2 gx where
    l: "main_loop s1 inps = Inr (s2, gx)" "0 \<le> current_page s2" "current_page s2 < NUM_PAGES"
    by blast
  show ?case using b(1) l by simp
qed

text \<open>
  C1. \<^verbatim>\<open>main\<close> starts with \<open>current_page = 0\<close>. Whatever the slice, the clock and the
  inputs of the iterations are, and after any number of iterations, the program has not
  failed and \<open>0 \<le> current_page < NUM_PAGES\<close>.
\<close>

theorem current_page_in_range:
  "\<exists>s fx. main sl now inps = Inr (s, fx) \<and> 0 \<le> current_page s \<and> current_page s < NUM_PAGES"
proof -
  obtain s0 fx0 where
    s0: "main_setup sl now = Inr (s0, fx0)" "current_page s0 = 0"
    by (simp add: main_setup_def render_page_eq NUM_PAGES_eq beep_first_page_eq)
  have "0 \<le> current_page s0" "current_page s0 < NUM_PAGES"
    by (simp_all add: s0(2) NUM_PAGES_eq)
  from main_loop_inv [OF this, of inps] obtain s1 fx where
    "main_loop s0 inps = Inr (s1, fx)" "0 \<le> current_page s1" "current_page s1 < NUM_PAGES"
    by blast
  then show ?thesis by (simp add: main_def s0(1))
qed

text \<open>
  C2. On the last page, an iteration that finds button A pressed after the debounce
  interval plays the last-page tone and waits; the state changes in \<^verbatim>\<open>last_change\<close>
  only, so the page is the same, and no call of the display driver is made. On the first
  page, an iteration that finds button B pressed (and A released) after the debounce
  interval does the same with the first-page tone.
\<close>

theorem boundary_press_beeps:
  "(current_page s = NUM_PAGES - 1 \<and> button_pressed inp BUTTON_A_PIN
      \<and> debounce_elapsed s (time_check inp) \<longrightarrow>
      (\<exists>tone. beep_last_page (buzzer_slice s) = Inr tone
         \<and> main_loop_body s inp = Inr (s\<lparr>last_change := time_set inp\<rparr>, tone @ [SleepMs 10])
         \<and> filter is_display (tone @ [SleepMs 10]) = []))
   \<and> (current_page s = 0 \<and> \<not> button_pressed inp BUTTON_A_PIN \<and> button_pressed inp BUTTON_B_PIN
      \<and> debounce_elapsed s (time_check inp) \<longrightarrow>
      (\<exists>tone. beep_first_page (buzzer_slice s) = Inr tone
         \<and> main_loop_body s inp = Inr (s\<lparr>last_change := time_set inp\<rparr>, tone @ [SleepMs 10])
         \<and> filter is_display (tone @ [SleepMs 10]) = []))"
  by (simp add: body_eval)

lemma render_page_effects:
  assumes "render_page i = Inr gx"
  shows "filter is_pwm gx = [] \<and> length (filter is_action gx) = 1"
proof (cases "0 \<le> i \<and> i < NUM_PAGES")
  case True
  then show ?thesis
    using assms by (auto simp add: render_page_eq is_pwm_line_draws is_action_line_draws)
next
  case False
  then have "render_page i = Inl OutOfBounds"
    by (auto simp add: render_page_def NUM_PAGES_def)
  with assms show ?thesis by simp
qed

lemma navigate_cases:
  assumes "navigate s inp = Inr (s1, updated, fx)"
  obtains
    (forward) "button_pressed inp BUTTON_A_PIN" "debounce_elapsed s (time_check inp)"
      "current_page s < NUM_PAGES - 1" "updated" "fx = []"
      "s1 = s\<lparr>current_page := current_page s + 1, last_change := time_set inp\<rparr>"
  | (at_last) "button_pressed inp BUTTON_A_PIN" "debounce_elapsed s (time_check inp)"
      "\<not> current_page s < NUM_PAGES - 1" "\<not> updated"
      "beep_last_page (buzzer_slice s) = Inr fx"
      "s1 = s\<lparr>last_change := time_set inp\<rparr>"
  | (backward) "\<not> button_pressed inp BUTTON_A_PIN" "button_pressed inp BUTTON_B_PIN"
      "debounce_elapsed s (time_check inp)" "0 < current_page s" "updated" "fx = []"
      "s1 = s\<lparr>current_page := current_page s - 1, last_change := time_set inp\<rparr>"
  | (at_first) "\<not> button_pressed inp BUTTON_A_PIN" "button_pressed inp BUTTON_B_PIN"
      "debounce_elapsed s (time_check inp)" "\<not> 0 < current_page s" "\<not> updated"
      "beep_first_page (buzzer_slice s) = Inr fx"
      "s1 = s\<lparr>last_change := time_set inp\<rparr>"
  | (idle) "\<not> updated" "fx = []" "s1 = s"
      "\<not> (button_pressed inp BUTTON_A_PIN \<or> button_pressed inp BUTTON_B_PIN)
         \<or> \<not> debounce_elapsed s (time_check inp)"
proof (cases "button_pressed inp BUTTON_A_PIN")
  case a: True
  show ?thesis
  proof (cases "debounce_elapsed s (time_check inp)")
    case d: True
    show ?thesis
    proof (cases "current_page s < NUM_PAGES - 1")
      case True
      with a d assms show ?thesis by (intro forward) (simp_all add: navigate_def)
    next
      case False
      with a d assms show ?thesis
        by (intro at_last) (auto simp add: navigate_def split: sum.splits)
    qed
  next
    case False
    with a assms show ?thesis by (intro idle) (simp_all add: navigate_def)
  qed
next
  case a: False
  show ?thesis
  proof (cases "button_pressed inp BUTTON_B_PIN \<and> debounce_elapsed s (time_check inp)")
    case bd: True
    show ?thesis
    proof (cases "0 < current_page s")
      case True
      with a bd assms show ?thesis by (intro backward) (simp_all add: navigate_def)
    next
      case False
      with a bd assms show ?thesis
        by (intro at_first) (auto simp add: navigate_def split: sum.splits)
    qed
  next
    case False
    with a assms show ?thesis by (intro idle) (auto simp add: navigate_def split: if_splits)
  qed
qed

lemma main_loop_body_Inr:
  assumes "main_loop_body s inp = Inr (s1, fx)"
  shows "\<exists>updated nx. navigate s inp = Inr (s1, updated, nx)
           \<and> (if updated then \<exists>gx. render_page (current_page s1) = Inr gx \<and> fx = nx @ gx @ [SleepMs 10]
               else fx = nx @ [SleepMs 10])"
proof (cases "navigate s inp")
  case (Inl e)
  with assms show ?thesis by (simp add: main_loop_body_def)
next
  case (Inr r)
  obtain s2 updated nx where r: "r = (s2, updated, nx)" by (cases r) auto
  show ?thesis
  proof (cases updated)
    case True
    show ?thesis
    proof (cases "render_page (current_page s2)")
      case (Inl e)
      with assms Inr r True show ?thesis by (simp add: main_loop_body_def)
    next
      case (Inr gx)
      with assms \<open>navigate s inp = Inr r\<close> r True show ?thesis
        by (auto simp add: main_loop_body_def)
    qed
  next
    case False
    with assms Inr r show ?thesis by (auto simp add: main_loop_body_def)
  qed
qed

text \<open>
  C3. An iteration that increments \<^verbatim>\<open>current_page\<close>, in particular one that arrives at
  the last page, makes no call of the PWM unit: it plays no tone. And in a state with
  \<open>0 \<le> current_page < NUM_PAGES\<close>, an iteration whose PWM calls are those of the
  last-page tone found button A pressed after the debounce interval while
  \<^verbatim>\<open>current_page\<close> was already \<open>NUM_PAGES - 1\<close>, and left the page unchanged.
\<close>

theorem no_tone_on_arrival:
  assumes "main_loop_body s inp = Inr (s1, fx)"
  shows "(current_page s1 = current_page s + 1 \<longrightarrow> filter is_pwm fx = [])
       \<and> (0 \<le> current_page s \<and> current_page s < NUM_PAGES
            \<and> (\<exists>tone. beep_last_page (buzzer_slice s) = Inr tone
                  \<and> filter is_pwm fx = filter is_pwm tone) \<longrightarrow>
          button_pressed inp BUTTON_A_PIN \<and> debounce_elapsed s (time_check inp)
            \<and> current_page s = NUM_PAGES - 1 \<and> current_page s1 = current_page s)"
proof -
  from main_loop_body_Inr [OF assms] obtain updated nx where
    nav: "navigate s inp = Inr (s1, updated, nx)"
    and fx: "if updated then \<exists>gx. render_page (current_page s1) = Inr gx \<and> fx = nx @ gx @ [SleepMs 10]
             else fx = nx @ [SleepMs 10]"
    by blast
  have last: "filter is_pwm tone =
      [PwmSetClkdiv (buzzer_slice s) (Finite 4), PwmSetWrap (buzzer_slice s) 26040,
       PwmSetGpioLevel BUZZER_PIN 9114, PwmSetGpioLevel BUZZER_PIN 0]"
    if "beep_last_page (buzzer_slice s) = Inr tone" for tone
    using that by (auto simp add: beep_last_page_eq)
  from nav show ?thesis
  proof (cases rule: navigate_cases)
    case forward
    with fx obtain gx where "render_page (current_page s1) = Inr gx" "fx = gx @ [SleepMs 10]"
      by auto
    then have "filter is_pwm fx = []" using render_page_effects [of "current_page s1" gx] by simp
    then show ?thesis using last by auto
  next
    case at_last
    then show ?thesis by auto
  next
    case backward
    with fx obtain gx where "render_page (current_page s1) = Inr gx" "fx = gx @ [SleepMs 10]"
      by auto
    then have "filter is_pwm fx = []" using render_page_effects [of "current_page s1" gx] by simp
    then show ?thesis using last backward by auto
  next
    case at_first
    with fx have "filter is_pwm fx =
      [PwmSetClkdiv (buzzer_slice s) (Finite 4), PwmSetWrap (buzzer_slice s) 62499,
       PwmSetGpioLevel BUZZER_PIN 21874, PwmSetGpioLevel BUZZER_PIN 0]"
      by (auto simp add: beep_first_page_eq)
    then show ?thesis using last at_first by auto
  next
    case idle
    with fx have "filter is_pwm fx = []" by simp
    then show ?thesis using last idle by auto
  qed
qed

lemma within_window:
  assumes "t1 \<le> ts" "ts \<le> (tc :: 64 word)" "unat tc - unat t1 < 180000"
  shows "\<not> DEBOUNCE_MS < absolute_time_diff_us ts tc sdiv 1000"
proof -
  have u: "unat (tc - ts) = unat tc - unat ts" using assms(2) by (rule unat_sub)
  have "unat t1 \<le> unat ts" using assms(1) by (simp add: word_le_nat_alt)
  then have lt: "unat (tc - ts) < 180000" using u assms(3) by linarith
  define k where "k = uint (tc - ts)"
  have ku: "k = int (unat (tc - ts))" by (simp add: k_def)
  have k: "0 \<le> k" "k < 180000" unfolding ku using lt by linarith+
  have "sint (tc - ts) = signed_take_bit 63 k"
    by (simp add: sint_uint k_def)
  also have "\<dots> = k"
    using k by (intro signed_take_bit_int_eq_self) simp_all
  finally have s: "absolute_time_diff_us ts tc = k" by (simp add: absolute_time_diff_us_def)
  have "k sdiv 1000 = k div 1000"
    using k(1) by (simp add: signed_divide_int_def sgn_if)
  moreover have "k div 1000 < 180" using k(2) by simp
  ultimately show ?thesis by (simp add: s DEBOUNCE_MS_def)
qed

lemma idle_in_window:
  assumes "t1 \<le> last_change s" "last_change s \<le> time_check inp"
    "unat (time_check inp) - unat t1 < 180000"
  shows "main_loop_body s inp = Inr (s, [SleepMs 10])"
proof -
  have "\<not> debounce_elapsed s (time_check inp)"
    unfolding debounce_elapsed_def using assms by (rule within_window)
  then show ?thesis by (simp add: main_loop_body_def navigate_def)
qed

lemma idle_loop_in_window:
  assumes "t1 \<le> last_change s"
    and "\<forall>i\<in>set inps. last_change s \<le> time_check i \<and> unat (time_check i) - unat t1 < 180000"
  shows "main_loop s inps = Inr (s, replicate (length inps) (SleepMs 10))"
  using assms(2)
proof (induction inps)
  case Nil
  then show ?case by simp
next
  case (Cons i inps)
  from Cons.prems have i: "last_change s \<le> time_check i"
    "unat (time_check i) - unat t1 < 180000" by auto
  have "main_loop_body s i = Inr (s, [SleepMs 10])"
    using assms(1) i by (rule idle_in_window)
  moreover have "main_loop s inps = Inr (s, replicate (length inps) (SleepMs 10))"
    using Cons by simp
  ultimately show ?case by simp
qed

text \<open>
  C4. Let an iteration find a button pressed after the debounce interval, in a state with
  \<open>0 \<le> current_page < NUM_PAGES\<close>. It performs exactly one action, a page change or a
  boundary tone, and in both cases it stores the clock in \<^verbatim>\<open>last_change\<close>. Every later
  iteration that reads the clock less than 180 ms (180000 microseconds) after the first one
  did, whatever the buttons are, changes nothing and only waits. The clock is read in
  order: the value stored is not before the value compared, and later iterations read
  later values.
\<close>

theorem debounce_one_action:
  assumes range: "0 \<le> current_page s" "current_page s < NUM_PAGES"
    and press: "button_pressed inp BUTTON_A_PIN \<or> button_pressed inp BUTTON_B_PIN"
    and elapsed: "debounce_elapsed s (time_check inp)"
    and clock: "time_check inp \<le> time_set inp"
    and later: "\<forall>i\<in>set inps. time_set inp \<le> time_check i
                  \<and> unat (time_check i) - unat (time_check inp) < 180000"
  shows "\<exists>s1 fx. main_loop_body s inp = Inr (s1, fx)
           \<and> length (filter is_action fx) = 1
           \<and> last_change s1 = time_set inp
           \<and> main_loop s1 inps = Inr (s1, replicate (length inps) (SleepMs 10))"
proof -
  have "\<exists>s1 fx. main_loop_body s inp = Inr (s1, fx)
           \<and> length (filter is_action fx) = 1 \<and> last_change s1 = time_set inp"
  proof (cases "button_pressed inp BUTTON_A_PIN")
    case True
    then show ?thesis
      using range elapsed by (simp add: body_eval is_action_line_draws)
  next
    case False
    then show ?thesis
      using range press elapsed by (simp add: body_eval is_action_line_draws)
  qed
  then obtain s1 fx where
    b: "main_loop_body s inp = Inr (s1, fx)" "length (filter is_action fx) = 1"
       "last_change s1 = time_set inp" by blast
  have "main_loop s1 inps = Inr (s1, replicate (length inps) (SleepMs 10))"
  proof (rule idle_loop_in_window)
    show "time_check inp \<le> last_change s1" using clock b(3) by simp
    show "\<forall>i\<in>set inps. last_change s1 \<le> time_check i
            \<and> unat (time_check i) - unat (time_check inp) < 180000"
      using later b(3) by simp
  qed
  with b show ?thesis by blast
qed

text \<open>
  C5. The level of button B is read only when button A is not pressed. Two iterations that
  start in the same state, read the same clock values and both find button A pressed have
  the same result, whatever the level of button B is in each: both buttons pressed is the
  same as button A alone.
\<close>

theorem next_takes_precedence:
  assumes "button_pressed inp BUTTON_A_PIN" "button_pressed inp' BUTTON_A_PIN"
    and "time_check inp' = time_check inp" "time_set inp' = time_set inp"
  shows "main_loop_body s inp' = main_loop_body s inp"
  using assms by (simp add: main_loop_body_def navigate_def cong: sum.case_cong)

lemmas input_eval = button_pressed_def BUTTON_A_PIN_def BUTTON_B_PIN_def debounce_elapsed_def
  absolute_time_diff_us_def DEBOUNCE_MS_def signed_divide_int_def

text \<open>Both cases of C2 on concrete states: page 3 with A pressed, page 0 with B pressed.\<close>

theorem boundary_press_beeps_witness:
  "current_page \<lparr>current_page = 3, buzzer_slice = 5, last_change = 0\<rparr> = NUM_PAGES - 1
   \<and> button_pressed \<lparr>gpio_get = (\<lambda>pin. pin \<noteq> 5), time_check = 200000, time_set = 200007\<rparr> BUTTON_A_PIN
   \<and> debounce_elapsed \<lparr>current_page = 3, buzzer_slice = 5, last_change = 0\<rparr> 200000
   \<and> main_loop_body \<lparr>current_page = 3, buzzer_slice = 5, last_change = 0\<rparr>
         \<lparr>gpio_get = (\<lambda>pin. pin \<noteq> 5), time_check = 200000, time_set = 200007\<rparr> =
       Inr (\<lparr>current_page = 3, buzzer_slice = 5, last_change = 200007\<rparr>,
            [PwmSetClkdiv 5 (Finite 4), PwmSetWrap 5 26040, PwmSetGpioLevel BUZZER_PIN 9114,
             SleepMs 90, PwmSetGpioLevel BUZZER_PIN 0, SleepMs 10])
   \<and> current_page \<lparr>current_page = 0, buzzer_slice = 5, last_change = 0\<rparr> = 0
   \<and> \<not> button_pressed \<lparr>gpio_get = (\<lambda>pin. pin \<noteq> 6), time_check = 200000, time_set = 200007\<rparr> BUTTON_A_PIN
   \<and> button_pressed \<lparr>gpio_get = (\<lambda>pin. pin \<noteq> 6), time_check = 200000, time_set = 200007\<rparr> BUTTON_B_PIN
   \<and> main_loop_body \<lparr>current_page = 0, buzzer_slice = 5, last_change = 0\<rparr>
         \<lparr>gpio_get = (\<lambda>pin. pin \<noteq> 6), time_check = 200000, time_set = 200007\<rparr> =
       Inr (\<lparr>current_page = 0, buzzer_slice = 5, last_change = 200007\<rparr>,
            [PwmSetClkdiv 5 (Finite 4), PwmSetWrap 5 62499, PwmSetGpioLevel BUZZER_PIN 21874,
             SleepMs 90, PwmSetGpioLevel BUZZER_PIN 0, SleepMs 10])"
  using boundary_press_beeps [of "\<lparr>current_page = 3, buzzer_slice = 5, last_change = 0\<rparr>"
      "\<lparr>gpio_get = (\<lambda>pin. pin \<noteq> 5), time_check = 200000, time_set = 200007\<rparr>"]
    boundary_press_beeps [of "\<lparr>current_page = 0, buzzer_slice = 5, last_change = 0\<rparr>"
      "\<lparr>gpio_get = (\<lambda>pin. pin \<noteq> 6), time_check = 200000, time_set = 200007\<rparr>"]
  by (simp add: NUM_PAGES_eq input_eval beep_first_page_eq beep_last_page_eq)

text \<open>
  Two iterations for C3: from page 2, button A leads to page 3 without a tone; on page 3,
  button A plays the last-page tone.
\<close>

lemma arrive_at_last_page:
  "main_loop_body \<lparr>current_page = 2, buzzer_slice = 5, last_change = 0\<rparr>
         \<lparr>gpio_get = (\<lambda>pin. pin \<noteq> 5), time_check = 200000, time_set = 200007\<rparr> =
       Inr (\<lparr>current_page = 3, buzzer_slice = 5, last_change = 200007\<rparr>,
            [ClearBuffer, DrawString 5 0 ''Pagina 4'', DrawString 5 16 ''Obrigado'',
             DrawString 0 56 ''A=Prox B=Voltar  4/4'', RenderOnDisplay, SleepMs 10])"
  by (simp add: main_loop_body_def navigate_def input_eval NUM_PAGES_eq render_page_eq
      PAGES_def layout_eval dec_int_digit digit_char_def del: split_lines.simps(2))

lemma press_next_on_last_page:
  "main_loop_body \<lparr>current_page = 3, buzzer_slice = 5, last_change = 0\<rparr>
         \<lparr>gpio_get = (\<lambda>pin. pin \<noteq> 5), time_check = 200000, time_set = 200007\<rparr> =
       Inr (\<lparr>current_page = 3, buzzer_slice = 5, last_change = 200007\<rparr>,
            [PwmSetClkdiv 5 (Finite 4), PwmSetWrap 5 26040, PwmSetGpioLevel BUZZER_PIN 9114,
             SleepMs 90, PwmSetGpioLevel BUZZER_PIN 0, SleepMs 10])"
  by (simp add: main_loop_body_def navigate_def input_eval NUM_PAGES_eq beep_last_page_eq)

theorem no_tone_on_arrival_witness:
  "main_loop_body \<lparr>current_page = 2, buzzer_slice = 5, last_change = 0\<rparr>
         \<lparr>gpio_get = (\<lambda>pin. pin \<noteq> 5), time_check = 200000, time_set = 200007\<rparr> =
       Inr (\<lparr>current_page = 3, buzzer_slice = 5, last_change = 200007\<rparr>,
            [ClearBuffer, DrawString 5 0 ''Pagina 4'', DrawString 5 16 ''Obrigado'',
             DrawString 0 56 ''A=Prox B=Voltar  4/4'', RenderOnDisplay, SleepMs 10])
   \<and> filter is_pwm [ClearBuffer, DrawString 5 0 ''Pagina 4'', DrawString 5 16 ''Obrigado'',
             DrawString 0 56 ''A=Prox B=Voltar  4/4'', RenderOnDisplay, SleepMs 10] = []
   \<and> main_loop_body \<lparr>current_page = 3, buzzer_slice = 5, last_change = 0\<rparr>
         \<lparr>gpio_get = (\<lambda>pin. pin \<noteq> 5), time_check = 200000, time_set = 200007\<rparr> =
       Inr (\<lparr>current_page = 3, buzzer_slice = 5, last_change = 200007\<rparr>,
            [PwmSetClkdiv 5 (Finite 4), PwmSetWrap 5 26040, PwmSetGpioLevel BUZZER_PIN 9114,
             SleepMs 90, PwmSetGpioLevel BUZZER_PIN 0, SleepMs 10])
   \<and> (\<exists>tone. beep_last_page 5 = Inr tone
         \<and> filter is_pwm [PwmSetClkdiv 5 (Finite 4), PwmSetWrap 5 26040,
               PwmSetGpioLevel BUZZER_PIN 9114, SleepMs 90, PwmSetGpioLevel BUZZER_PIN 0,
               SleepMs 10] = filter is_pwm tone)
   \<and> button_pressed \<lparr>gpio_get = (\<lambda>pin. pin \<noteq> 5), time_check = 200000, time_set = 200007\<rparr> BUTTON_A_PIN
   \<and> debounce_elapsed \<lparr>current_page = 3, buzzer_slice = 5, last_change = 0\<rparr> 200000"
  using no_tone_on_arrival [OF arrive_at_last_page] no_tone_on_arrival [OF press_next_on_last_page]
    arrive_at_last_page press_next_on_last_page
  by (simp add: NUM_PAGES_eq beep_last_page_eq)

text \<open>A second press of button A 179.999 ms after the first one does nothing.\<close>

theorem debounce_one_action_witness:
  "(0::int) \<le> 1 \<and> 1 < NUM_PAGES
   \<and> button_pressed \<lparr>gpio_get = (\<lambda>pin. pin \<noteq> 5), time_check = 200000, time_set = 200007\<rparr> BUTTON_A_PIN
   \<and> debounce_elapsed \<lparr>current_page = 1, buzzer_slice = 5, last_change = 0\<rparr> 200000
   \<and> (200000 :: 64 word) \<le> 200007 \<and> (200007 :: 64 word) \<le> 379999
   \<and> unat (379999 :: 64 word) - unat (200000 :: 64 word) < 180000
   \<and> (\<exists>s1 fx. main_loop_body \<lparr>current_page = 1, buzzer_slice = 5, last_change = 0\<rparr>
           \<lparr>gpio_get = (\<lambda>pin. pin \<noteq> 5), time_check = 200000, time_set = 200007\<rparr> = Inr (s1, fx)
         \<and> length (filter is_action fx) = 1
         \<and> last_change s1 = 200007
         \<and> main_loop s1
             [\<lparr>gpio_get = (\<lambda>pin. pin \<noteq> 5), time_check = 379999, time_set = 380000\<rparr>] =
           Inr (s1, [SleepMs 10]))"
  using debounce_one_action [of "\<lparr>current_page = 1, buzzer_slice = 5, last_change = 0\<rparr>"
      "\<lparr>gpio_get = (\<lambda>pin. pin \<noteq> 5), time_check = 200000, time_set = 200007\<rparr>"
      "[\<lparr>gpio_get = (\<lambda>pin. pin \<noteq> 5), time_check = 379999, time_set = 380000\<rparr>]"]
  by (simp add: NUM_PAGES_eq input_eval)

text \<open>Both buttons pressed against button A alone, on page 1.\<close>

theorem next_takes_precedence_witness:
  "button_pressed \<lparr>gpio_get = (\<lambda>pin. pin \<noteq> 5), time_check = 200000, time_set = 200007\<rparr> BUTTON_A_PIN
   \<and> \<not> button_pressed \<lparr>gpio_get = (\<lambda>pin. pin \<noteq> 5), time_check = 200000, time_set = 200007\<rparr> BUTTON_B_PIN
   \<and> button_pressed \<lparr>gpio_get = (\<lambda>pin. False), time_check = 200000, time_set = 200007\<rparr> BUTTON_A_PIN
   \<and> button_pressed \<lparr>gpio_get = (\<lambda>pin. False), time_check = 200000, time_set = 200007\<rparr> BUTTON_B_PIN
   \<and> main_loop_body \<lparr>current_page = 1, buzzer_slice = 5, last_change = 0\<rparr>
         \<lparr>gpio_get = (\<lambda>pin. False), time_check = 200000, time_set = 200007\<rparr> =
       main_loop_body \<lparr>current_page = 1, buzzer_slice = 5, last_change = 0\<rparr>
         \<lparr>gpio_get = (\<lambda>pin. pin \<noteq> 5), time_check = 200000, time_set = 200007\<rparr>"
  using next_takes_precedence [of
      "\<lparr>gpio_get = (\<lambda>pin. pin \<noteq> 5), time_check = 200000, time_set = 200007\<rparr>"
      "\<lparr>gpio_get = (\<lambda>pin. False), time_check = 200000, time_set = 200007\<rparr>"
      "\<lparr>current_page = 1, buzzer_slice = 5, last_change = 0\<rparr>"]
  by (simp add: input_eval)

end
